theory Spec2Isabelle
  imports Main "HOL-Library.Word"
begin

section \<open>Boot-time, run-time and shutdown-time tracing (sys/kern/kern_boottrace.c)\<close>

subsection \<open>Constants\<close>

definition BT_TABLE_DEFSIZE :: "32 word" where "BT_TABLE_DEFSIZE = 3000"
definition BT_TABLE_RUNSIZE :: "32 word" where "BT_TABLE_RUNSIZE = 2000"
definition BT_TABLE_SHTSIZE :: "32 word" where "BT_TABLE_SHTSIZE = 1000"
definition BT_TABLE_MINSIZE :: "32 word" where "BT_TABLE_MINSIZE = 500"
definition BT_EVENT_NAMELEN :: nat where "BT_EVENT_NAMELEN = 40"
definition BT_EVENT_TDNAMELEN :: nat where "BT_EVENT_TDNAMELEN = 24"

text \<open>
  The error numbers are those of FreeBSD's \<open>sys/errno.h\<close>; the functions below only
  compare them with each other and with 0.
\<close>

definition ENOMEM :: int where "ENOMEM = 12"
definition EINVAL :: int where "EINVAL = 22"
definition ENOSPC :: int where "ENOSPC = 28"

subsection \<open>Data\<close>

text \<open>\<open>struct bt_event\<close>. The two character arrays hold C strings.\<close>

record bt_event =
  tsc :: "64 word"
  tick :: "64 word"
  cpuid :: "32 word"
  cputime :: "32 word"
  inblock :: "32 word"
  oublock :: "32 word"
  pid :: "32 word"
  name :: string
  tdname :: string

text \<open>A slot of storage allocated with \<open>M_ZERO\<close>.\<close>

definition zero_event :: bt_event where
  "zero_event = \<lparr> tsc = 0, tick = 0, cpuid = 0, cputime = 0, inblock = 0, oublock = 0,
                   pid = 0, name = [], tdname = [] \<rparr>"

text \<open>
  \<open>struct bt\<close>. The field \<open>size\<close> is written \<open>size_bt\<close>. The pointer \<open>table\<close> is
  \<open>None\<close> when it is \<open>NULL\<close>, and otherwise the array it points to.
\<close>

record bt =
  size_bt :: "32 word"
  curr :: "32 word"
  wrap :: "32 word"
  drops_early :: "32 word"
  drops_full :: "32 word"
  table :: "bt_event list option"

text \<open>
  What the kernel reports about the caller when a trace function runs: the values of
  \<open>PCPU_GET(cpuid)\<close>, \<open>get_cyclecount()\<close>, \<open>ticks\<close>, \<open>curthread\<close>, \<open>curproc\<close>,
  \<open>kern_getrusage\<close>, \<open>rebooting\<close> and \<open>panicstr\<close>.
\<close>

record ctx =
  pcpu_cpuid :: "32 word"
  cyclecount :: "64 word"
  ticks :: "32 word"
  p_pid :: "32 word"
  is_proc0 :: bool
  td_critnest :: "32 word"
  p_system :: bool
  td_name :: string
  p_comm :: string
  ru_utime_sec :: "64 word"
  ru_utime_usec :: "64 word"
  ru_stime_sec :: "64 word"
  ru_stime_usec :: "64 word"
  ru_inblock :: "64 word"
  ru_oublock :: "64 word"
  rebooting :: bool
  panicstr :: bool

text \<open>What stops the kernel instead of returning.\<close>

datatype fault = DivideByZero | NullDeref | OutOfBounds

subsection \<open>dotrace\<close>

text \<open>\<open>strlcpy(dst, src, n)\<close> leaves in \<open>dst\<close> the first \<open>n - 1\<close> characters of \<open>src\<close>.\<close>

definition strlcpy :: "string \<Rightarrow> nat \<Rightarrow> string" where
  "strlcpy src n = take (n - 1) src"

text \<open>The nine stores of \<open>dotrace\<close> into the slot it has claimed.\<close>

definition fill_event :: "ctx \<Rightarrow> string \<Rightarrow> string \<Rightarrow> bt_event" where
  "fill_event c eventname tdname' =
     \<lparr> tsc = cyclecount c,
       tick = scast (ticks c),
       cpuid = pcpu_cpuid c,
       cputime = (if is_proc0 c \<or> td_critnest c \<noteq> 0 then 0
                  else ucast (ru_utime_sec c * 1000000 + ru_utime_usec c +
                              ru_stime_sec c * 1000000 + ru_stime_usec c)),
       inblock = (if is_proc0 c \<or> td_critnest c \<noteq> 0 then 0 else ucast (ru_inblock c)),
       oublock = (if is_proc0 c \<or> td_critnest c \<noteq> 0 then 0 else ucast (ru_oublock c)),
       pid = p_pid c,
       name = strlcpy eventname BT_EVENT_NAMELEN,
       tdname = strlcpy tdname' BT_EVENT_TDNAMELEN \<rparr>"

text \<open>
  \<open>dotrace\<close>, run by one caller with no other writer in between, so that the
  compare-and-set succeeds the first time. The console output of
  \<open>dotrace_debugging\<close> is left out. A \<open>NULL\<close> \<open>tdname\<close> is \<open>None\<close>.
\<close>

definition default_tdname :: "ctx \<Rightarrow> string option \<Rightarrow> string" where
  "default_tdname c tdname0 =
     (case tdname0 of
        None \<Rightarrow> (if p_system c then td_name c else p_comm c)
      | Some s \<Rightarrow> s)"

definition dotrace :: "ctx \<Rightarrow> bt \<Rightarrow> string \<Rightarrow> string option \<Rightarrow> fault + (int \<times> bt)" where
  "dotrace c btp eventname tdname0 =
     (let tdname' = default_tdname c tdname0
      in case table btp of
           None \<Rightarrow> Inr (ENOSPC, btp\<lparr>drops_early := drops_early btp + 1\<rparr>)
         | Some tbl \<Rightarrow>
             if size_bt btp = 0 then Inl DivideByZero
             else
               let idx = curr btp;
                   nxt = (idx + 1) mod size_bt btp
               in if nxt = 0 \<and> wrap btp = 0
                  then Inr (ENOSPC, btp\<lparr>drops_full := drops_full btp + 1\<rparr>)
                  else if \<not> unat idx < length tbl then Inl OutOfBounds
                  else Inr (0, btp\<lparr>curr := nxt,
                                     table := Some (tbl[unat idx := fill_event c eventname tdname'])\<rparr>))"

subsection \<open>Rendering a table\<close>

text \<open>
  The output is kept as the lines printed, whichever the sink: the header, the rows
  with the ten values that \<open>BTC_DELTA_PRINT\<close> formats, and the footer with the
  total.
\<close>

datatype line =
    Header
  | Row "32 word" "64 word" "64 word" string string "32 word" "32 word" "32 word"
        "32 word" "32 word"
  | Footer "64 word"

definition BTC_DELTA_PRINT :: "bt_event \<Rightarrow> 64 word \<Rightarrow> 64 word \<Rightarrow> line" where
  "BTC_DELTA_PRINT bte msecs delta =
     Row (cpuid bte) msecs delta (tdname bte) (name bte) (pid bte)
         (cputime bte div 1000000) ((cputime bte mod 1000000) div 10000)
         (inblock bte) (oublock bte)"

text \<open>
  The local variables of \<open>boottrace_display\<close> that live across iterations, with the
  lines printed so far. \<open>last_evtp\<close> points into the table, which the walk does not
  change: it is kept as the entry it points to, \<open>None\<close> for \<open>NULL\<close>.
\<close>

record dstate =
  first_msecs :: "64 word"
  last_evtp :: "bt_event option"
  last_msecs :: "64 word"
  last_dmsecs :: "64 word"
  last_printed :: bool
  printed_lines :: "line list"

definition dstate_init :: dstate where
  "dstate_init = \<lparr> first_msecs = 0, last_evtp = None, last_msecs = 0, last_dmsecs = 0,
                    last_printed = False, printed_lines = [Header] \<rparr>"

text \<open>The two conditional expressions of the loop body.\<close>

definition delta_msecs :: "64 word \<Rightarrow> 64 word \<Rightarrow> 64 word" where
  "delta_msecs last_ms msecs = (if last_ms \<noteq> 0 \<and> msecs > last_ms then msecs - last_ms else 0)"

definition track_first :: "64 word \<Rightarrow> 64 word \<Rightarrow> 64 word" where
  "track_first msecs first_ms = (if first_ms = 0 \<or> msecs < first_ms then msecs else first_ms)"

text \<open>
  The body of the loop for the entry \<open>evtp\<close>, up to the label \<open>next\<close>.
  \<open>tsc_freq\<close> is the kernel's global of that name.
\<close>

definition display_entry :: "64 word \<Rightarrow> 64 word \<Rightarrow> bt_event \<Rightarrow> dstate \<Rightarrow> fault + dstate" where
  "display_entry tsc_freq dthres evtp s =
     (if tsc evtp = 0 then Inr s
      else if tsc_freq = 0 then Inl DivideByZero
      else
        let msecs = tsc evtp * 1000 div tsc_freq;
            dmsecs = delta_msecs (last_msecs s) msecs;
            landmark = (case last_evtp s of
                          None \<Rightarrow> []
                        | Some levtp \<Rightarrow>
                            if \<not> last_printed s
                            then [BTC_DELTA_PRINT levtp (last_msecs s) (last_dmsecs s)]
                            else []);
            (printed, lines) =
               (if dthres \<noteq> 0 \<and> dmsecs > dthres
                then (True, printed_lines s @ landmark @ [BTC_DELTA_PRINT evtp msecs dmsecs])
                else if dthres = 0
                then (True, printed_lines s @ [BTC_DELTA_PRINT evtp msecs dmsecs])
                else (False, printed_lines s))
        in Inr \<lparr> first_msecs = track_first msecs (first_msecs s),
                   last_evtp = Some evtp,
                   last_msecs = msecs,
                   last_dmsecs = dmsecs,
                   last_printed = printed,
                   printed_lines = lines \<rparr>)"

text \<open>
  The \<open>do ... while (i != curr)\<close> loop, entered at index \<open>i\<close>. It returns \<open>None\<close>
  when it runs forever.
\<close>

partial_function (option) display_loop ::
  "64 word \<Rightarrow> 64 word \<Rightarrow> 32 word \<Rightarrow> bt_event list \<Rightarrow> 32 word \<Rightarrow> 32 word \<Rightarrow> dstate
     \<Rightarrow> (fault + dstate) option" where
  "display_loop tsc_freq dthres sz tbl curr0 i s =
     (if \<not> unat i < length tbl then Some (Inl OutOfBounds)
      else case display_entry tsc_freq dthres (tbl ! unat i) s of
             Inl f \<Rightarrow> Some (Inl f)
           | Inr s' \<Rightarrow>
               if sz = 0 then Some (Inl DivideByZero)
               else let i' = (i + 1) mod sz
                    in if i' \<noteq> curr0
                       then display_loop tsc_freq dthres sz tbl curr0 i' s'
                       else Some (Inr s'))"

declare display_loop.simps [code]

definition boottrace_display :: "64 word \<Rightarrow> bt \<Rightarrow> 64 word \<Rightarrow> (fault + line list) option" where
  "boottrace_display tsc_freq btp dthres =
     (case table btp of
        None \<Rightarrow> Some (Inl NullDeref)
      | Some tbl \<Rightarrow>
          (case display_loop tsc_freq dthres (size_bt btp) tbl (curr btp) (curr btp)
                  dstate_init of
             None \<Rightarrow> None
           | Some (Inl f) \<Rightarrow> Some (Inl f)
           | Some (Inr s) \<Rightarrow>
               let total_dmsecs = (if last_msecs s > first_msecs s
                                   then last_msecs s - first_msecs s else 0)
               in Some (Inr (printed_lines s @ [Footer total_dmsecs]))))"

subsection \<open>The three tables and the two flags\<close>

text \<open>The static variables \<open>bt\<close>, \<open>rt\<close>, \<open>st\<close>, \<open>bootdone\<close> and \<open>shutdown\<close>.\<close>

record globals =
  bt :: bt
  rt :: bt
  st :: bt
  bootdone :: bool
  shutdown :: bool

text \<open>A \<open>struct bt *\<close> is the address of one of the three tables.\<close>

datatype which = BT | RT | ST

fun deref :: "globals \<Rightarrow> which \<Rightarrow> bt" where
  "deref g BT = bt g"
| "deref g RT = rt g"
| "deref g ST = st g"

fun assign :: "globals \<Rightarrow> which \<Rightarrow> bt \<Rightarrow> globals" where
  "assign g BT b = g\<lparr>bt := b\<rparr>"
| "assign g RT b = g\<lparr>rt := b\<rparr>"
| "assign g ST b = g\<lparr>st := b\<rparr>"

text \<open>\<open>dotrace(trace, eventname, tdname)\<close> for a pointer \<open>trace\<close> to one of the tables.\<close>

definition dotrace_at ::
  "ctx \<Rightarrow> globals \<Rightarrow> which \<Rightarrow> string \<Rightarrow> string option \<Rightarrow> fault + (int \<times> globals)" where
  "dotrace_at c g trace eventname tdname0 =
     (case dotrace c (deref g trace) eventname tdname0 of
        Inl f \<Rightarrow> Inl f
      | Inr (error, b) \<Rightarrow> Inr (error, assign g trace b))"

text \<open>The value of the local \<open>trace\<close> of \<open>boottrace\<close> when it calls \<open>dotrace\<close>.\<close>

definition boottrace_trace :: "ctx \<Rightarrow> globals \<Rightarrow> which" where
  "boottrace_trace c g =
     (let trace = BT;
          trace = (if bootdone g then RT else trace);
          trace = (if shutdown g \<or> rebooting c \<or> panicstr c then ST else trace)
      in trace)"

definition boottrace ::
  "ctx \<Rightarrow> globals \<Rightarrow> string \<Rightarrow> string option \<Rightarrow> fault + (int \<times> globals)" where
  "boottrace c g eventname tdname0 = dotrace_at c g (boottrace_trace c g) eventname tdname0"

definition runtrace ::
  "ctx \<Rightarrow> globals \<Rightarrow> string \<Rightarrow> string option \<Rightarrow> fault + (int \<times> globals)" where
  "runtrace c g eventname tdname0 =
     (case boottrace c g eventname tdname0 of
        Inl f \<Rightarrow> Inl f
      | Inr (error, g') \<Rightarrow> Inr (error, g'\<lparr>bootdone := True\<rparr>))"

definition shuttrace ::
  "ctx \<Rightarrow> globals \<Rightarrow> string \<Rightarrow> string option \<Rightarrow> fault + (int \<times> globals)" where
  "shuttrace c g eventname tdname0 =
     dotrace_at c (g\<lparr>shutdown := True\<rparr>) ST eventname tdname0"

subsection \<open>Reset and resize\<close>

text \<open>
  \<open>boottrace_reset\<close>: \<open>snprintf\<close> leaves at most 63 characters in \<open>tmpbuf\<close>. The return
  value of \<open>runtrace\<close> is dropped.
\<close>

definition boottrace_reset :: "ctx \<Rightarrow> globals \<Rightarrow> string \<Rightarrow> fault + globals" where
  "boottrace_reset c g actor =
     (let tmpbuf = take 63 (''reset: '' @ actor)
      in case runtrace c g tmpbuf None of
           Inl f \<Rightarrow> Inl f
         | Inr (error, g') \<Rightarrow> Inr g')"

text \<open>
  \<open>realloc\<close> with \<open>M_ZERO\<close> is the kernel allocator's, as malloc(9) describes it: \<open>NULL\<close>
  when the allocator gives nothing (\<open>avail\<close> is false), and otherwise storage of \<open>n\<close>
  entries that keeps the old contents up to the shorter of both lengths, the rest
  zeroed. A \<open>NULL\<close> old pointer makes it a \<open>malloc\<close>.
\<close>

definition realloc :: "bool \<Rightarrow> bt_event list option \<Rightarrow> nat \<Rightarrow> bt_event list option" where
  "realloc avail old n =
     (if \<not> avail then None
      else case old of
             None \<Rightarrow> Some (replicate n zero_event)
           | Some tbl \<Rightarrow> Some (take n tbl @ replicate (n - length tbl) zero_event))"

definition boottrace_resize :: "bool \<Rightarrow> ctx \<Rightarrow> globals \<Rightarrow> 32 word \<Rightarrow> fault + (int \<times> globals)" where
  "boottrace_resize avail c g newsize =
     (if newsize \<le> size_bt (rt g) then Inr (EINVAL, g)
      else
        let g1 = g\<lparr>rt := (rt g)\<lparr>table := realloc avail (table (rt g)) (unat newsize)\<rparr>\<rparr>
        in if table (rt g1) = None then Inr (ENOMEM, g1)
           else
             let g2 = g1\<lparr>rt := (rt g1)\<lparr>size_bt := newsize\<rparr>\<rparr>
             in case boottrace_reset c g2 ''boottrace_resize'' of
                  Inl f \<Rightarrow> Inl f
                | Inr g3 \<Rightarrow> Inr (0, g3))"

subsection \<open>The sysctl handlers\<close>

text \<open>
  \<open>boottrace_parse_message\<close> splits the message at its first colon; \<open>comm\<close> is
  \<open>curproc->p_comm\<close>. It returns \<open>eventname\<close> and \<open>tdname\<close>.
\<close>

definition boottrace_parse_message :: "string \<Rightarrow> string \<Rightarrow> string \<times> string" where
  "boottrace_parse_message message comm =
     (if CHR '':'' \<in> set message
      then (tl (dropWhile (\<lambda>ch. ch \<noteq> CHR '':'') message),
            takeWhile (\<lambda>ch. ch \<noteq> CHR '':'') message)
      else (message, comm))"

text \<open>
  A sysctl request, as far as the handlers look at it: whether \<open>req->newptr\<close> is set,
  and what \<open>sysctl_handle_string\<close> returns and leaves in \<open>message\<close> for it.
\<close>

record sysctl_req =
  newptr :: bool
  handle_error :: int
  handle_message :: string

definition ignore_full :: "int \<Rightarrow> int" where
  "ignore_full error = (if error = ENOSPC then 0 else error)"

definition sysctl_boottrace ::
  "64 word \<Rightarrow> ctx \<Rightarrow> globals \<Rightarrow> sysctl_req
     \<Rightarrow> (fault + (int \<times> globals \<times> line list)) option" where
  "sysctl_boottrace tsc_freq c g req =
     (if \<not> newptr req
      then (case boottrace_display tsc_freq (bt g) 0 of
              None \<Rightarrow> None
            | Some (Inl f) \<Rightarrow> Some (Inl f)
            | Some (Inr out1) \<Rightarrow>
                (case boottrace_display tsc_freq (rt g) 0 of
                   None \<Rightarrow> None
                 | Some (Inl f) \<Rightarrow> Some (Inl f)
                 | Some (Inr out2) \<Rightarrow> Some (Inr (0, g, out1 @ out2))))
      else if handle_error req \<noteq> 0 then Some (Inr (handle_error req, g, []))
      else
        let (eventname, tdname') = boottrace_parse_message (handle_message req) (p_comm c)
        in case boottrace c g eventname (Some tdname') of
             Inl f \<Rightarrow> Some (Inl f)
           | Inr (error, g') \<Rightarrow> Some (Inr (ignore_full error, g', [])))"

definition sysctl_runtrace :: "ctx \<Rightarrow> globals \<Rightarrow> sysctl_req \<Rightarrow> fault + (int \<times> globals)" where
  "sysctl_runtrace c g req =
     (if \<not> newptr req then Inr (0, g)
      else if handle_error req \<noteq> 0 then Inr (handle_error req, g)
      else
        let (eventname, tdname') = boottrace_parse_message (handle_message req) (p_comm c)
        in case runtrace c g eventname (Some tdname') of
             Inl f \<Rightarrow> Inl f
           | Inr (error, g') \<Rightarrow> Inr (ignore_full error, g'))"

definition sysctl_shuttrace :: "ctx \<Rightarrow> globals \<Rightarrow> sysctl_req \<Rightarrow> fault + (int \<times> globals)" where
  "sysctl_shuttrace c g req =
     (if \<not> newptr req then Inr (0, g)
      else if handle_error req \<noteq> 0 then Inr (handle_error req, g)
      else
        let (eventname, tdname') = boottrace_parse_message (handle_message req) (p_comm c)
        in case shuttrace c g eventname (Some tdname') of
             Inl f \<Rightarrow> Inl f
           | Inr (error, g') \<Rightarrow> Inr (ignore_full error, g'))"

definition sysctl_boottrace_reset :: "ctx \<Rightarrow> globals \<Rightarrow> sysctl_req \<Rightarrow> fault + (int \<times> globals)" where
  "sysctl_boottrace_reset c g req =
     (if newptr req
      then (case boottrace_reset c g ''sysctl_boottrace_reset'' of
              Inl f \<Rightarrow> Inl f
            | Inr g' \<Rightarrow> Inr (0, g'))
      else Inr (0, g))"

subsection \<open>Initialisation\<close>

text \<open>The static variables before \<open>boottrace_init\<close> runs: all zero.\<close>

definition globals_zero :: globals where
  "globals_zero =
     (let z = \<lparr> size_bt = 0, curr = 0, wrap = 0, drops_early = 0, drops_full = 0,
                 table = None \<rparr>
      in \<lparr> bt = z, rt = z, st = z, bootdone = False, shutdown = False \<rparr>)"

text \<open>
  \<open>boottrace_init\<close>. \<open>tunable\<close> is what \<open>TUNABLE_INT_FETCH\<close> finds for
  \<open>boottrace-table-size\<close>, if anything; \<open>max\<close> compares unsigned. \<open>malloc\<close> with
  \<open>M_WAITOK | M_ZERO\<close> does not return \<open>NULL\<close> and gives zeroed storage.
\<close>

definition boottrace_init :: "ctx \<Rightarrow> 32 word option \<Rightarrow> globals \<Rightarrow> globals" where
  "boottrace_init c tunable g =
     (let bsize = (case tunable of None \<Rightarrow> BT_TABLE_DEFSIZE | Some v \<Rightarrow> v);
          bsize = max bsize BT_TABLE_MINSIZE;
          btab = replicate (unat bsize) zero_event;
          btab = btab[0 := (btab ! 0)\<lparr> cpuid := pcpu_cpuid c, tsc := 0, tick := 0,
                                         cputime := 0, inblock := 0, oublock := 0,
                                         tdname := strlcpy ''boottime'' BT_EVENT_TDNAMELEN,
                                         name := strlcpy ''initial event'' BT_EVENT_NAMELEN \<rparr>]
      in g\<lparr> bt := (bt g)\<lparr> size_bt := bsize, table := Some btab, curr := 1 \<rparr>,
            rt := (rt g)\<lparr> wrap := 1, size_bt := BT_TABLE_RUNSIZE,
                          table := Some (replicate (unat BT_TABLE_RUNSIZE) zero_event) \<rparr>,
            st := (st g)\<lparr> size_bt := BT_TABLE_SHTSIZE,
                          table := Some (replicate (unat BT_TABLE_SHTSIZE) zero_event) \<rparr> \<rparr>)"

subsection \<open>Sequences of calls\<close>

text \<open>
  The calls that reach \<open>dotrace\<close>: \<open>boottrace\<close>, \<open>runtrace\<close> (through its sysctl
  handler), \<open>shuttrace\<close>, \<open>boottrace_reset\<close> and \<open>boottrace_resize\<close>; the last one
  with what the allocator will answer. \<open>boottrace_reset\<close> returns nothing, which is
  reported as 0.
\<close>

datatype call =
    Boottrace string "string option"
  | Runtrace string "string option"
  | Shuttrace string "string option"
  | Reset string
  | Resize bool "32 word"

fun do_call :: "ctx \<Rightarrow> globals \<Rightarrow> call \<Rightarrow> fault + (int \<times> globals)" where
  "do_call c g (Boottrace eventname tdname0) = boottrace c g eventname tdname0"
| "do_call c g (Runtrace eventname tdname0) = runtrace c g eventname tdname0"
| "do_call c g (Shuttrace eventname tdname0) = shuttrace c g eventname tdname0"
| "do_call c g (Reset actor) =
     (case boottrace_reset c g actor of Inl f \<Rightarrow> Inl f | Inr g' \<Rightarrow> Inr (0, g'))"
| "do_call c g (Resize avail newsize) = boottrace_resize avail c g newsize"

fun run_calls :: "(ctx \<times> call) list \<Rightarrow> globals \<Rightarrow> fault + (int list \<times> globals)" where
  "run_calls [] g = Inr ([], g)"
| "run_calls ((c, k) # ks) g =
     (case do_call c g k of
        Inl f \<Rightarrow> Inl f
      | Inr (e, g') \<Rightarrow>
          (case run_calls ks g' of
             Inl f \<Rightarrow> Inl f
           | Inr (es, g'') \<Rightarrow> Inr (e # es, g'')))"

subsection \<open>What a walk visits\<close>

text \<open>
  The entries that the walk of a well-formed table does not skip, in the order of the
  walk: from the cursor to the end of the storage, then from its start to the cursor.
\<close>

definition visited :: "bt \<Rightarrow> bt_event list" where
  "visited btp =
     (case table btp of
        None \<Rightarrow> []
      | Some tbl \<Rightarrow> filter (\<lambda>e. tsc e \<noteq> 0) (rotate (unat (curr btp)) tbl))"

text \<open>The loop body applied to a list of entries in turn.\<close>

fun display_walk :: "64 word \<Rightarrow> 64 word \<Rightarrow> bt_event list \<Rightarrow> dstate \<Rightarrow> fault + dstate" where
  "display_walk tsc_freq dthres [] s = Inr s"
| "display_walk tsc_freq dthres (e # es) s =
     (case display_entry tsc_freq dthres e s of
        Inl f \<Rightarrow> Inl f
      | Inr s' \<Rightarrow> display_walk tsc_freq dthres es s')"

text \<open>\<open>msecs\<close> of an entry, and the values of \<open>dmsecs\<close> along a list of \<open>msecs\<close>.\<close>

definition msecs_of :: "64 word \<Rightarrow> bt_event \<Rightarrow> 64 word" where
  "msecs_of tsc_freq e = tsc e * 1000 div tsc_freq"

fun deltas :: "64 word \<Rightarrow> 64 word list \<Rightarrow> 64 word list" where
  "deltas last_ms [] = []"
| "deltas last_ms (m # ms) = delta_msecs last_ms m # deltas m ms"

text \<open>\<open>first_msecs\<close> and \<open>total_dmsecs\<close> after a walk that saw the given \<open>msecs\<close>.\<close>

definition first_of :: "64 word list \<Rightarrow> 64 word" where
  "first_of ms = fold track_first ms 0"

definition total_of :: "64 word list \<Rightarrow> 64 word" where
  "total_of ms =
     (let last_ms = (if ms = [] then 0 else last ms)
      in if last_ms > first_of ms then last_ms - first_of ms else 0)"

text \<open>The total that the footer of an output reports.\<close>

fun footer_of :: "(fault + line list) option \<Rightarrow> 64 word option" where
  "footer_of (Some (Inr ls)) = (case rev ls of Footer t # _ \<Rightarrow> Some t | _ \<Rightarrow> None)"
| "footer_of _ = None"

text \<open>The rows of an output, without its header and footer.\<close>

fun is_row :: "line \<Rightarrow> bool" where
  "is_row (Row _ _ _ _ _ _ _ _ _ _) = True"
| "is_row _ = False"

fun data_rows :: "(fault + line list) option \<Rightarrow> line list" where
  "data_rows (Some (Inr ls)) = filter is_row ls"
| "data_rows _ = []"

subsection \<open>Consecutive submissions into one table\<close>

text \<open>
  A table as the code expects it: storage allocated with \<open>size\<close> entries and the
  cursor inside it.
\<close>

definition wf_bt :: "bt \<Rightarrow> bool" where
  "wf_bt btp =
     (case table btp of
        None \<Rightarrow> False
      | Some tbl \<Rightarrow> length tbl = unat (size_bt btp) \<and> curr btp < size_bt btp)"

text \<open>One call of \<open>dotrace\<close>: the caller's context, the event name, the thread name.\<close>

type_synonym request = "ctx \<times> string \<times> string option"

definition event_of :: "request \<Rightarrow> bt_event" where
  "event_of r = (case r of (c, eventname, tdname0) \<Rightarrow>
                   fill_event c eventname (default_tdname c tdname0))"

text \<open>Calls of \<open>dotrace\<close> on the same table, one after the other, with their return values.\<close>

fun dotrace_seq :: "request list \<Rightarrow> bt \<Rightarrow> fault + (int list \<times> bt)" where
  "dotrace_seq [] btp = Inr ([], btp)"
| "dotrace_seq ((c, eventname, tdname0) # rs) btp =
     (case dotrace c btp eventname tdname0 of
        Inl f \<Rightarrow> Inl f
      | Inr (e, btp') \<Rightarrow>
          (case dotrace_seq rs btp' of
             Inl f \<Rightarrow> Inl f
           | Inr (es, btp'') \<Rightarrow> Inr (e # es, btp'')))"

text \<open>
  The calls of \<open>dotrace\<close> that a sequence of calls makes, in order, when the run
  table has the size \<open>sz\<close> before it: one for each \<open>boottrace\<close>, \<open>runtrace\<close>,
  \<open>shuttrace\<close> and \<open>boottrace_reset\<close>, and one for each \<open>boottrace_resize\<close> that
  neither returns \<open>EINVAL\<close> nor is refused storage.
\<close>

fun requests_of :: "(ctx \<times> call) list \<Rightarrow> 32 word \<Rightarrow> request list" where
  "requests_of [] sz = []"
| "requests_of ((c, Boottrace eventname tdname0) # ks) sz =
     (c, eventname, tdname0) # requests_of ks sz"
| "requests_of ((c, Runtrace eventname tdname0) # ks) sz =
     (c, eventname, tdname0) # requests_of ks sz"
| "requests_of ((c, Shuttrace eventname tdname0) # ks) sz =
     (c, eventname, tdname0) # requests_of ks sz"
| "requests_of ((c, Reset actor) # ks) sz =
     (c, take 63 (''reset: '' @ actor), None) # requests_of ks sz"
| "requests_of ((c, Resize avail newsize) # ks) sz =
     (if newsize \<le> sz \<or> \<not> avail then requests_of ks sz
      else (c, take 63 (''reset: '' @ ''boottrace_resize''), None) # requests_of ks newsize)"

subsection \<open>dotrace under interleaving\<close>

text \<open>
  Several callers inside \<open>dotrace\<close> on the same table at once. Each caller is at one
  of four places: before the test of \<open>btp->table\<close>; at the head of the \<open>do\<close> loop;
  at the \<open>atomic_cmpset_int\<close>, holding its locals \<open>idx\<close> and \<open>nxt\<close>; or past the
  loop and storing into the slot \<open>idx\<close> it has claimed.
\<close>

datatype pc = Start | Loop | Cas "32 word" "32 word" | Fill "32 word"

text \<open>
  A caller: where it is, the calls it still has to make (the first one is in progress)
  and the values its finished calls returned.
\<close>

record thread =
  pc :: pc
  todo :: "request list"
  rets :: "int list"

text \<open>
  The shared table and the callers. \<open>claims\<close> is not in the code: it records, in order,
  which caller each successful compare-and-set gave which index.
\<close>

record conc =
  shared :: bt
  threads :: "thread list"
  claims :: "(nat \<times> 32 word) list"

text \<open>
  One step of caller \<open>i\<close>, atomic with respect to the others: the test for \<open>NULL\<close>;
  the body of the loop (read the cursor, compute \<open>nxt\<close>, refuse when full); the
  compare-and-set, which goes back to the loop head when the cursor has moved; the
  stores into the slot and the return. A caller with nothing left to do stays as it is.
\<close>

definition thread_step :: "nat \<Rightarrow> conc \<Rightarrow> fault + conc" where
  "thread_step i s =
     (if \<not> i < length (threads s) then Inr s
      else
        let t = threads s ! i; btp = shared s
        in case todo t of
             [] \<Rightarrow> Inr s
           | r # rs \<Rightarrow>
               (case pc t of
                  Start \<Rightarrow>
                    (case table btp of
                       None \<Rightarrow>
                         Inr (s\<lparr>shared := btp\<lparr>drops_early := drops_early btp + 1\<rparr>,
                                threads := (threads s)
                                  [i := t\<lparr>todo := rs, rets := rets t @ [ENOSPC]\<rparr>]\<rparr>)
                     | Some tbl \<Rightarrow> Inr (s\<lparr>threads := (threads s)[i := t\<lparr>pc := Loop\<rparr>]\<rparr>))
                | Loop \<Rightarrow>
                    if size_bt btp = 0 then Inl DivideByZero
                    else
                      let idx = curr btp;
                          nxt = (idx + 1) mod size_bt btp
                      in if nxt = 0 \<and> wrap btp = 0
                         then Inr (s\<lparr>shared := btp\<lparr>drops_full := drops_full btp + 1\<rparr>,
                                     threads := (threads s)
                                       [i := t\<lparr>pc := Start, todo := rs,
                                                rets := rets t @ [ENOSPC]\<rparr>]\<rparr>)
                         else Inr (s\<lparr>threads := (threads s)[i := t\<lparr>pc := Cas idx nxt\<rparr>]\<rparr>)
                | Cas idx nxt \<Rightarrow>
                    if curr btp = idx
                    then Inr (s\<lparr>shared := btp\<lparr>curr := nxt\<rparr>,
                                threads := (threads s)[i := t\<lparr>pc := Fill idx\<rparr>],
                                claims := claims s @ [(i, idx)]\<rparr>)
                    else Inr (s\<lparr>threads := (threads s)[i := t\<lparr>pc := Loop\<rparr>]\<rparr>)
                | Fill idx \<Rightarrow>
                    (case table btp of
                       None \<Rightarrow> Inl NullDeref
                     | Some tbl \<Rightarrow>
                         if \<not> unat idx < length tbl then Inl OutOfBounds
                         else Inr (s\<lparr>shared := btp\<lparr>table :=
                                               Some (tbl[unat idx := event_of r])\<rparr>,
                                     threads := (threads s)
                                       [i := t\<lparr>pc := Start, todo := rs,
                                                rets := rets t @ [0]\<rparr>]\<rparr>))))"

text \<open>A schedule says which caller takes each step.\<close>

fun run :: "nat list \<Rightarrow> conc \<Rightarrow> fault + conc" where
  "run [] s = Inr s"
| "run (i # sched) s =
     (case thread_step i s of
        Inl f \<Rightarrow> Inl f
      | Inr s' \<Rightarrow> run sched s')"

text \<open>All callers about to enter \<open>dotrace\<close>, each with its list of calls.\<close>

definition conc_init :: "bt \<Rightarrow> request list list \<Rightarrow> conc" where
  "conc_init btp reqss =
     \<lparr> shared = btp,
       threads = map (\<lambda>rs. \<lparr> pc = Start, todo = rs, rets = [] \<rparr>) reqss,
       claims = [] \<rparr>"

definition all_done :: "conc \<Rightarrow> bool" where
  "all_done s = list_all (\<lambda>t. todo t = []) (threads s)"

text \<open>The slot that caller \<open>i\<close> is storing into, if it is past the loop.\<close>

definition owns :: "conc \<Rightarrow> nat \<Rightarrow> 32 word option" where
  "owns s i =
     (if i < length (threads s)
      then (case pc (threads s ! i) of Fill idx \<Rightarrow> Some idx | _ \<Rightarrow> None)
      else None)"

text \<open>
  What holds of a wrapping table and its callers under every schedule, for the table
  \<open>b0\<close> at the start and the numbers \<open>ks\<close> of calls that the callers make. A caller
  has made progress \<open>n\<close> when it has claimed \<open>n\<close> slots.
\<close>

definition progress :: "thread \<Rightarrow> nat" where
  "progress t = length (rets t) + (case pc t of Fill idx \<Rightarrow> 1 | _ \<Rightarrow> 0)"

definition thread_inv :: "bt \<Rightarrow> conc \<Rightarrow> nat \<Rightarrow> nat \<Rightarrow> bool" where
  "thread_inv b0 s k i =
     (let t = threads s ! i
      in set (rets t) \<subseteq> {0} \<and> length (rets t) + length (todo t) = k \<and>
         (todo t = [] \<longrightarrow> pc t = Start) \<and>
         (case pc t of
            Cas idx nxt \<Rightarrow> nxt = (idx + 1) mod size_bt b0
          | Fill idx \<Rightarrow> unat idx < unat (size_bt b0) \<and> (i, idx) \<in> set (claims s)
          | _ \<Rightarrow> True))"

definition conc_inv :: "bt \<Rightarrow> nat list \<Rightarrow> conc \<Rightarrow> bool" where
  "conc_inv b0 ks s =
     (size_bt b0 \<noteq> 0 \<and>
      size_bt (shared s) = size_bt b0 \<and> wrap (shared s) = wrap b0 \<and>
      (case table (shared s) of
         None \<Rightarrow> False
       | Some tbl \<Rightarrow> length tbl = unat (size_bt b0)) \<and>
      unat (curr (shared s)) =
        (unat (curr b0) + length (claims s)) mod unat (size_bt b0) \<and>
      map (unat \<circ> snd) (claims s) =
        map (\<lambda>n. (unat (curr b0) + n) mod unat (size_bt b0)) [0..<length (claims s)] \<and>
      length (threads s) = length ks \<and>
      length (claims s) = sum_list (map progress (threads s)) \<and>
      (\<forall>i < length ks. thread_inv b0 s (ks ! i) i))"

text \<open>
  A measure of the work the callers have left, used to show that they finish. A call
  still to be made counts \<open>2 * T + 2\<close> for \<open>T\<close> callers, a call in progress counts
  less the further it has got, and a compare-and-set that is bound to fail (the cursor
  is no longer the index read) counts as a call not yet started. Every step of a caller
  with a call in progress makes the sum smaller: a successful compare-and-set takes
  \<open>2 * T - 1\<close> from its caller and gives at most 2 to each of the others.
\<close>

definition weight :: "nat \<Rightarrow> 32 word \<Rightarrow> thread \<Rightarrow> nat" where
  "weight T cur t =
     (case todo t of
        [] \<Rightarrow> 0
      | r # rs \<Rightarrow>
          (2 * T + 2) * length rs +
          (case pc t of
             Start \<Rightarrow> 2 * T + 2
           | Loop \<Rightarrow> 2 * T + 1
           | Cas idx nxt \<Rightarrow> if cur = idx then 2 * T else 2 * T + 2
           | Fill idx \<Rightarrow> 1))"

definition potential :: "conc \<Rightarrow> nat" where
  "potential s =
     sum_list (map (weight (length (threads s)) (curr (shared s))) (threads s))"

subsection \<open>Sample data\<close>

text \<open>A table with zeroed storage of the given size and wrap flag, as a static \<open>struct bt\<close>
  is after its \<open>malloc\<close> in \<open>boottrace_init\<close>.\<close>

definition empty_bt :: "32 word \<Rightarrow> 32 word \<Rightarrow> bt" where
  "empty_bt n w = \<lparr> size_bt = n, curr = 0, wrap = w, drops_early = 0, drops_full = 0,
                     table = Some (replicate (unat n) zero_event) \<rparr>"

text \<open>A user process on CPU 2 at cycle count \<open>t\<close>, outside any critical section.\<close>

definition ctx_at :: "64 word \<Rightarrow> ctx" where
  "ctx_at t = \<lparr> pcpu_cpuid = 2, cyclecount = t, ticks = 7, p_pid = 41, is_proc0 = False,
                 td_critnest = 0, p_system = False, td_name = ''thr'', p_comm = ''init'',
                 ru_utime_sec = 1, ru_utime_usec = 250000, ru_stime_sec = 0,
                 ru_stime_usec = 30000, ru_inblock = 4, ru_oublock = 5,
                 rebooting = False, panicstr = False \<rparr>"

definition req_at :: "64 word \<Rightarrow> request" where
  "req_at t = (ctx_at t, ''event'', None)"

text \<open>Tables of that kind with all slots written, at the given cycle counts.\<close>

definition table_of :: "64 word list \<Rightarrow> bt" where
  "table_of ts = \<lparr> size_bt = of_nat (length ts), curr = 0, wrap = 1, drops_early = 0,
                     drops_full = 0, table = Some (map (\<lambda>t. event_of (req_at t)) ts) \<rparr>"

text \<open>The tables and flags right after \<open>boottrace_init\<close> with the default sizes.\<close>

definition globals_booted :: globals where
  "globals_booted = boottrace_init (ctx_at 0) None globals_zero"

text \<open>
  The tables and flags after two calls of \<open>runtrace\<close> on that: the first event is in
  the boot table, the second in slot 0 of the run table.
\<close>

definition globals_running :: globals where
  "globals_running =
     globals_booted\<lparr>bootdone := True,
        bt := (bt globals_booted)\<lparr>curr := 2,
           table := Some ((replicate 3000 zero_event)
              [0 := zero_event\<lparr> cpuid := 2, tdname := ''boottime'',
                                name := ''initial event'' \<rparr>,
               1 := event_of (ctx_at 10, ''up'', None)])\<rparr>,
        rt := (empty_bt 2000 1)\<lparr>curr := 1,
           table := Some ((replicate 2000 zero_event)
              [0 := event_of (ctx_at 20, ''ready'', None)])\<rparr>\<rparr>"

section \<open>Properties\<close>

subsection \<open>The cursor\<close>

lemma unat_next_slot:
  fixes i s :: "32 word"
  assumes "i < s"
  shows "unat ((i + 1) mod s) = (unat i + 1) mod unat s"
proof -
  have "unat i < unat s" using assms by (simp add: word_less_nat_alt)
  moreover have "unat s < 2 ^ 32" using unsigned_less [of s, where ?'a = nat] by simp
  ultimately have "unat i + unat (1 :: 32 word) < 2 ^ LENGTH(32)" by simp
  then have "unat (i + 1) = unat i + 1"
    by (simp only: unat_add_lem) simp
  then show ?thesis by (simp add: unat_mod)
qed

lemma next_slot_zero_iff:
  fixes i s :: "32 word"
  assumes "i < s"
  shows "(i + 1) mod s = 0 \<longleftrightarrow> unat i + 1 = unat s"
proof -
  have lt: "unat i < unat s" using assms by (simp add: word_less_nat_alt)
  have "(i + 1) mod s = 0 \<longleftrightarrow> unat ((i + 1) mod s) = 0"
    by (simp add: unat_eq_0)
  also have "\<dots> \<longleftrightarrow> (unat i + 1) mod unat s = 0"
    by (simp add: unat_next_slot [OF assms])
  also have "\<dots> \<longleftrightarrow> unat i + 1 = unat s"
  proof
    assume "(unat i + 1) mod unat s = 0"
    then have "unat s dvd unat i + 1" by (simp add: dvd_eq_mod_eq_0)
    then have "unat s \<le> unat i + 1" by (rule dvd_imp_le) simp
    with lt show "unat i + 1 = unat s" by simp
  next
    assume "unat i + 1 = unat s"
    then show "(unat i + 1) mod unat s = 0" by simp
  qed
  finally show ?thesis .
qed

lemma dotrace_claims_slot:
  assumes tb: "table btp = Some tbl"
    and len: "length tbl = unat (size_bt btp)"
    and cur: "curr btp < size_bt btp"
    and room: "wrap btp \<noteq> 0 \<or> unat (curr btp) + 1 < unat (size_bt btp)"
  shows "dotrace c btp ev td =
           Inr (0, btp\<lparr>curr := (curr btp + 1) mod size_bt btp,
                       table := Some (tbl[unat (curr btp) := event_of (c, ev, td)])\<rparr>)"
proof -
  have nz: "size_bt btp \<noteq> 0" using cur by auto
  have lt: "unat (curr btp) < length tbl" using cur len by (simp add: word_less_nat_alt)
  have "\<not> ((curr btp + 1) mod size_bt btp = 0 \<and> wrap btp = 0)"
    using room next_slot_zero_iff [OF cur] by auto
  then show ?thesis
    using tb nz lt by (auto simp add: dotrace_def event_of_def Let_def)
qed

lemma dotrace_full:
  assumes tb: "table btp = Some tbl"
    and cur: "curr btp < size_bt btp"
    and stop: "wrap btp = 0"
    and last: "unat (curr btp) + 1 = unat (size_bt btp)"
  shows "dotrace c btp ev td = Inr (ENOSPC, btp\<lparr>drops_full := drops_full btp + 1\<rparr>)"
proof -
  have nz: "size_bt btp \<noteq> 0" using cur by auto
  have "(curr btp + 1) mod size_bt btp = 0"
    using last next_slot_zero_iff [OF cur] by simp
  then show ?thesis
    using tb nz stop by (simp add: dotrace_def Let_def)
qed

lemma rotate_claim:
  assumes "c < length t"
  shows "rotate ((c + 1) mod length t) (t[c := e]) = tl (rotate c t) @ [e]"
proof (cases "c + 1 < length t")
  case True
  then have "rotate (c + 1) (t[c := e]) = drop (c + 1) t @ take c t @ [e]"
    using assms by (simp add: rotate_drop_take take_Suc_conv_app_nth)
  moreover have "tl (rotate c t) = drop (c + 1) t @ take c t"
    using assms by (simp add: rotate_drop_take drop_Suc tl_drop Cons_nth_drop_Suc [symmetric])
  ultimately show ?thesis using True by simp
next
  case False
  then have eq: "c + 1 = length t" using assms by simp
  then have "t[c := e] = take c t @ [e]"
    using assms by (simp add: upd_conv_take_nth_drop)
  moreover have "tl (rotate c t) = take c t"
    using assms eq by (simp add: rotate_drop_take Cons_nth_drop_Suc [symmetric])
  ultimately show ?thesis using eq by simp
qed

lemma dotrace_seq_wrap:
  assumes "table btp = Some tbl" "length tbl = unat (size_bt btp)"
    "curr btp < size_bt btp" "wrap btp \<noteq> 0"
  shows "\<exists>btp' tbl'. dotrace_seq reqs btp = Inr (replicate (length reqs) 0, btp')
           \<and> table btp' = Some tbl' \<and> length tbl' = unat (size_bt btp')
           \<and> curr btp' < size_bt btp' \<and> size_bt btp' = size_bt btp
           \<and> wrap btp' = wrap btp
           \<and> drops_early btp' = drops_early btp \<and> drops_full btp' = drops_full btp
           \<and> rotate (unat (curr btp')) tbl' =
               drop (length reqs) (rotate (unat (curr btp)) tbl @ map event_of reqs)"
  using assms
proof (induction reqs arbitrary: btp tbl)
  case Nil
  then show ?case by simp
next
  case (Cons r rs)
  obtain c ev td where r: "r = (c, ev, td)" by (cases r)
  let ?k = "unat (curr btp)"
  let ?b = "btp\<lparr>curr := (curr btp + 1) mod size_bt btp,
                  table := Some (tbl[?k := event_of r])\<rparr>"
  have nz: "size_bt btp \<noteq> 0" using Cons.prems(3) by auto
  have klt: "?k < length tbl"
    using Cons.prems(2,3) by (simp add: word_less_nat_alt)
  have step: "dotrace c btp ev td = Inr (0, ?b)"
    using dotrace_claims_slot [OF Cons.prems(1,2,3)] Cons.prems(4) r by simp
  have cur': "curr ?b < size_bt ?b"
    using nz by (simp add: word_mod_less_divisor word_greater_zero_iff)
  have nxt: "unat (curr ?b) = (?k + 1) mod length tbl"
    using unat_next_slot [OF Cons.prems(3)] Cons.prems(2) by simp
  have tb': "table ?b = Some (tbl[?k := event_of r])" by simp
  have len': "length (tbl[?k := event_of r]) = unat (size_bt ?b)"
    using Cons.prems(2) by simp
  have wr': "wrap ?b \<noteq> 0" using Cons.prems(4) by simp
  have fields: "size_bt ?b = size_bt btp" "wrap ?b = wrap btp"
    "drops_early ?b = drops_early btp" "drops_full ?b = drops_full btp" by simp_all
  from Cons.IH [OF tb' len' cur' wr']
  obtain btp' tbl' where
    run: "dotrace_seq rs ?b = Inr (replicate (length rs) 0, btp')"
    and props: "table btp' = Some tbl'" "length tbl' = unat (size_bt btp')"
      "curr btp' < size_bt btp'" "size_bt btp' = size_bt btp" "wrap btp' = wrap btp"
      "drops_early btp' = drops_early btp" "drops_full btp' = drops_full btp"
    and ring: "rotate (unat (curr btp')) tbl' =
        drop (length rs) (rotate (unat (curr ?b)) (tbl[?k := event_of r]) @ map event_of rs)"
    unfolding fields by blast
  have ne: "rotate ?k tbl \<noteq> []" using klt by auto
  have "rotate (unat (curr ?b)) (tbl[?k := event_of r]) = tl (rotate ?k tbl) @ [event_of r]"
    using rotate_claim [OF klt] nxt by simp
  then have "rotate (unat (curr btp')) tbl' =
      drop (length rs) (tl (rotate ?k tbl) @ event_of r # map event_of rs)"
    using ring by simp
  also have "\<dots> = drop (length (r # rs)) (rotate ?k tbl @ map event_of (r # rs))"
    using ne by (cases "rotate ?k tbl") simp_all
  finally have ring': "rotate (unat (curr btp')) tbl' =
      drop (length (r # rs)) (rotate ?k tbl @ map event_of (r # rs))" .
  have "dotrace_seq (r # rs) btp = Inr (replicate (length (r # rs)) 0, btp')"
    using step run r by simp
  with props ring' show ?case by blast
qed

lemma dotrace_seq_room:
  assumes "table btp = Some tbl" "length tbl = unat (size_bt btp)"
    "unat (curr btp) + length reqs < unat (size_bt btp)"
  shows "\<exists>btp'. dotrace_seq reqs btp = Inr (replicate (length reqs) 0, btp')
           \<and> table btp' = Some (take (unat (curr btp)) tbl @ map event_of reqs @
                                  drop (unat (curr btp) + length reqs) tbl)
           \<and> unat (curr btp') = unat (curr btp) + length reqs
           \<and> size_bt btp' = size_bt btp \<and> wrap btp' = wrap btp
           \<and> drops_early btp' = drops_early btp \<and> drops_full btp' = drops_full btp"
  using assms
proof (induction reqs arbitrary: btp tbl)
  case Nil
  then show ?case by simp
next
  case (Cons r rs)
  obtain c ev td where r: "r = (c, ev, td)" by (cases r)
  let ?k = "unat (curr btp)"
  let ?t = "tbl[?k := event_of r]"
  let ?b = "btp\<lparr>curr := (curr btp + 1) mod size_bt btp, table := Some ?t\<rparr>"
  have klt: "?k + 1 < unat (size_bt btp)" using Cons.prems(3) by simp
  then have cur: "curr btp < size_bt btp" by (simp add: word_less_nat_alt)
  have step: "dotrace c btp ev td = Inr (0, ?b)"
    using dotrace_claims_slot [OF Cons.prems(1,2) cur] klt r by simp
  have nxt: "unat (curr ?b) = ?k + 1"
    using unat_next_slot [OF cur] klt by simp
  have tb': "table ?b = Some ?t" by simp
  have len': "length ?t = unat (size_bt ?b)" using Cons.prems(2) by simp
  have room': "unat (curr ?b) + length rs < unat (size_bt ?b)"
    using nxt Cons.prems(3) by simp
  have fields: "size_bt ?b = size_bt btp" "wrap ?b = wrap btp"
    "drops_early ?b = drops_early btp" "drops_full ?b = drops_full btp" by simp_all
  from Cons.IH [OF tb' len' room']
  obtain btp' where
    run: "dotrace_seq rs ?b = Inr (replicate (length rs) 0, btp')"
    and tbl': "table btp' = Some (take (unat (curr ?b)) ?t @ map event_of rs @
                                  drop (unat (curr ?b) + length rs) ?t)"
    and cur': "unat (curr btp') = unat (curr ?b) + length rs"
    and props: "size_bt btp' = size_bt btp" "wrap btp' = wrap btp"
      "drops_early btp' = drops_early btp" "drops_full btp' = drops_full btp"
    unfolding fields by blast
  have k: "?k < length tbl" using klt Cons.prems(2) by simp
  have "take (?k + 1) ?t = take ?k tbl @ [event_of r]"
    using k by (simp add: take_Suc_conv_app_nth)
  moreover have "drop (?k + 1 + length rs) ?t = drop (?k + length (r # rs)) tbl"
    by simp
  ultimately have "table btp' = Some (take ?k tbl @ map event_of (r # rs) @
                                  drop (?k + length (r # rs)) tbl)"
    using tbl' nxt by simp
  moreover have "dotrace_seq (r # rs) btp = Inr (replicate (length (r # rs)) 0, btp')"
    using step run r by simp
  moreover have "unat (curr btp') = ?k + length (r # rs)" using cur' nxt by simp
  ultimately show ?case using props by blast
qed

lemma replicate_2: "replicate 2 x = [x, x]"
  by (simp add: numeral_2_eq_2)

lemma replicate_3: "replicate 3 x = [x, x, x]"
  by (simp add: numeral_3_eq_3)

subsection \<open>A table that does not wrap\<close>

text \<open>
  Claim C1, as the code has it. A table that does not wrap, with capacity \<open>C \<ge> 1\<close>,
  allocated storage and cursor 0, takes \<open>C - 1\<close> consecutive calls of \<open>dotrace\<close>: each
  returns 0 and they fill the slots \<open>0 .. C - 2\<close> in order, the last slot keeping what it
  held. Every call after them returns \<open>ENOSPC\<close> and changes nothing but the counter
  \<open>drops_full\<close>: the cursor never reaches the last slot, because the step that would
  bring it back to 0 is the one \<open>dotrace\<close> refuses.
\<close>

theorem dotrace_stop_capacity:
  assumes tb: "table btp = Some tbl"
    and len: "length tbl = unat (size_bt btp)"
    and cap: "size_bt btp \<noteq> 0"
    and cur: "curr btp = 0"
    and stop: "wrap btp = 0"
    and n: "length reqs + 1 = unat (size_bt btp)"
  shows "\<exists>btp'. dotrace_seq reqs btp = Inr (replicate (length reqs) 0, btp')
           \<and> table btp' = Some (map event_of reqs @ [last tbl])
           \<and> (\<forall>c eventname tdname0.
                 dotrace c btp' eventname tdname0 =
                   Inr (ENOSPC, btp'\<lparr>drops_full := drops_full btp' + 1\<rparr>))"
proof -
  have room: "unat (curr btp) + length reqs < unat (size_bt btp)" using cur n by simp
  from dotrace_seq_room [OF tb len room]
  obtain btp' where
    run: "dotrace_seq reqs btp = Inr (replicate (length reqs) 0, btp')"
    and tbl': "table btp' = Some (take (unat (curr btp)) tbl @ map event_of reqs @
                                  drop (unat (curr btp) + length reqs) tbl)"
    and cur': "unat (curr btp') = unat (curr btp) + length reqs"
    and props: "size_bt btp' = size_bt btp" "wrap btp' = wrap btp"
    by blast
  have ne: "tbl \<noteq> []" using len n by auto
  have "drop (length reqs) tbl = [last tbl]"
  proof -
    have "length reqs = length tbl - 1" using len n by simp
    then have "drop (length reqs) tbl = drop (length (butlast tbl)) (butlast tbl @ [last tbl])"
      using ne by simp
    then show ?thesis by simp
  qed
  then have t: "table btp' = Some (map event_of reqs @ [last tbl])"
    using tbl' cur by simp
  have lst: "unat (curr btp') + 1 = unat (size_bt btp')" using cur' cur n props by simp
  then have lt: "curr btp' < size_bt btp'" by (simp add: word_less_nat_alt)
  have "dotrace c btp' ev td = Inr (ENOSPC, btp'\<lparr>drops_full := drops_full btp' + 1\<rparr>)"
    for c ev td
    using dotrace_full [OF t lt _ lst] props stop by simp
  with run t show ?thesis by blast
qed

theorem dotrace_stop_capacity_witness:
  "\<exists>btp'. dotrace_seq [req_at 10, req_at 20] (empty_bt 3 0) = Inr ([0, 0], btp')
           \<and> table btp' = Some [event_of (req_at 10), event_of (req_at 20), zero_event]
           \<and> (\<forall>c eventname tdname0.
                 dotrace c btp' eventname tdname0 =
                   Inr (ENOSPC, btp'\<lparr>drops_full := drops_full btp' + 1\<rparr>))"
  using dotrace_stop_capacity [of "empty_bt 3 0" "replicate 3 zero_event" "[req_at 10, req_at 20]"]
  by (simp add: empty_bt_def)

text \<open>
  Claim C1 as it is written fails at capacity 2: of two submissions into an empty
  table that does not wrap, the second already returns \<open>ENOSPC\<close>, and the slot 1 is
  never written.
\<close>

theorem dotrace_stop_capacity_counterexample:
  "dotrace_seq [req_at 10, req_at 20] (empty_bt 2 0) =
     Inr ([0, ENOSPC],
          \<lparr> size_bt = 2, curr = 1, wrap = 0, drops_early = 0, drops_full = 1,
            table = Some [event_of (req_at 10), zero_event] \<rparr>)"
  by (simp add: req_at_def dotrace_def empty_bt_def event_of_def Let_def replicate_2)

subsection \<open>A table that wraps\<close>

lemma event_of_record:
  "event_of = (\<lambda>(c, eventname, tdname0).
       \<lparr> tsc = cyclecount c, tick = scast (ticks c), cpuid = pcpu_cpuid c,
         cputime = (if is_proc0 c \<or> td_critnest c \<noteq> 0 then 0
                    else ucast (ru_utime_sec c * 1000000 + ru_utime_usec c +
                                ru_stime_sec c * 1000000 + ru_stime_usec c)),
         inblock = (if is_proc0 c \<or> td_critnest c \<noteq> 0 then 0 else ucast (ru_inblock c)),
         oublock = (if is_proc0 c \<or> td_critnest c \<noteq> 0 then 0 else ucast (ru_oublock c)),
         pid = p_pid c,
         name = take 39 eventname,
         tdname = take 23 (case tdname0 of
                             None \<Rightarrow> if p_system c then td_name c else p_comm c
                           | Some s \<Rightarrow> s) \<rparr>)"
  by (rule ext)
    (simp add: event_of_def fill_event_def default_tdname_def strlcpy_def
      BT_EVENT_NAMELEN_def BT_EVENT_TDNAMELEN_def split: prod.splits)

text \<open>
  Claim C8. A well-formed table that wraps, of capacity \<open>C\<close>, takes any \<open>N > C\<close>
  consecutive calls of \<open>dotrace\<close>: each returns 0, the size, the policy and the drop
  counters stay as they were, and afterwards the storage read from the cursor onwards
  (the oldest slot first, wrapping once) holds exactly one record for each of the last
  \<open>C\<close> calls, in the order of the calls. The record of a call is what the caller
  submitted: the cycle counter, tick count, cpu and process id of the calling context,
  its resource usage (zero for process 0 or inside a critical section), the event name
  cut to 39 characters, and the thread name given (or, when none is given, the thread's
  or the process's name) cut to 23 characters.
\<close>

theorem dotrace_wrap_retains_most_recent:
  assumes wf: "wf_bt btp"
    and wr: "wrap btp \<noteq> 0"
    and n: "unat (size_bt btp) < length reqs"
  shows "\<exists>btp' tbl'. dotrace_seq reqs btp = Inr (replicate (length reqs) 0, btp')
           \<and> table btp' = Some tbl' \<and> size_bt btp' = size_bt btp
           \<and> wrap btp' = wrap btp \<and> drops_early btp' = drops_early btp
           \<and> drops_full btp' = drops_full btp
           \<and> length tbl' = unat (size_bt btp) \<and> curr btp' < size_bt btp
           \<and> rotate (unat (curr btp')) tbl' =
               map (\<lambda>(c, eventname, tdname0).
                     \<lparr> tsc = cyclecount c, tick = scast (ticks c), cpuid = pcpu_cpuid c,
                       cputime = (if is_proc0 c \<or> td_critnest c \<noteq> 0 then 0
                                  else ucast (ru_utime_sec c * 1000000 + ru_utime_usec c +
                                              ru_stime_sec c * 1000000 + ru_stime_usec c)),
                       inblock = (if is_proc0 c \<or> td_critnest c \<noteq> 0 then 0
                                  else ucast (ru_inblock c)),
                       oublock = (if is_proc0 c \<or> td_critnest c \<noteq> 0 then 0
                                  else ucast (ru_oublock c)),
                       pid = p_pid c,
                       name = take 39 eventname,
                       tdname = take 23 (case tdname0 of
                                           None \<Rightarrow> if p_system c then td_name c else p_comm c
                                         | Some s \<Rightarrow> s) \<rparr>)
                 (drop (length reqs - unat (size_bt btp)) reqs)"
proof -
  from wf obtain tbl where tb: "table btp = Some tbl"
    and len: "length tbl = unat (size_bt btp)" and cur: "curr btp < size_bt btp"
    by (auto simp: wf_bt_def split: option.splits)
  from dotrace_seq_wrap [OF tb len cur wr, of reqs]
  obtain btp' tbl' where
    run: "dotrace_seq reqs btp = Inr (replicate (length reqs) 0, btp')"
    and props: "table btp' = Some tbl'" "length tbl' = unat (size_bt btp')"
      "curr btp' < size_bt btp'" "size_bt btp' = size_bt btp"
    and keep: "wrap btp' = wrap btp" "drops_early btp' = drops_early btp"
      "drops_full btp' = drops_full btp"
    and ring: "rotate (unat (curr btp')) tbl' =
        drop (length reqs) (rotate (unat (curr btp)) tbl @ map event_of reqs)"
    by blast
  have "drop (length reqs) (rotate (unat (curr btp)) tbl @ map event_of reqs) =
        drop (length reqs - unat (size_bt btp)) (map event_of reqs)"
    using n len by simp
  then have "rotate (unat (curr btp')) tbl' =
      map event_of (drop (length reqs - unat (size_bt btp)) reqs)"
    using ring by (simp add: drop_map)
  then show ?thesis
    unfolding event_of_record using run props keep by auto
qed

theorem dotrace_wrap_retains_most_recent_witness:
  "\<exists>btp' tbl'. dotrace_seq [(ctx_at 10, ''first'', None), (ctx_at 20, ''second'', Some ''swapper''),
                 (ctx_at 30, ''third'', None)] (empty_bt 2 1) = Inr ([0, 0, 0], btp')
           \<and> table btp' = Some tbl' \<and> size_bt btp' = 2
           \<and> wrap btp' = 1 \<and> drops_early btp' = 0 \<and> drops_full btp' = 0
           \<and> length tbl' = 2 \<and> curr btp' < 2
           \<and> rotate (unat (curr btp')) tbl' =
               [\<lparr> tsc = 20, tick = 7, cpuid = 2, cputime = 1280000, inblock = 4, oublock = 5,
                  pid = 41, name = ''second'', tdname = ''swapper'' \<rparr>,
                \<lparr> tsc = 30, tick = 7, cpuid = 2, cputime = 1280000, inblock = 4, oublock = 5,
                  pid = 41, name = ''third'', tdname = ''init'' \<rparr>]"
  using dotrace_wrap_retains_most_recent [of "empty_bt 2 1"
      "[(ctx_at 10, ''first'', None), (ctx_at 20, ''second'', Some ''swapper''),
        (ctx_at 30, ''third'', None)]"]
  by (simp add: empty_bt_def wf_bt_def ctx_at_def)

subsection \<open>The walk of a rendering\<close>

lemma walk_index:
  assumes "c < n" "k < (n::nat)"
  shows "(c + k + 1) mod n = c \<longleftrightarrow> k + 1 = n"
proof
  assume eq: "(c + k + 1) mod n = c"
  show "k + 1 = n"
  proof (rule ccontr)
    assume "k + 1 \<noteq> n"
    then have k: "k + 1 < n" using assms by simp
    show False
    proof (cases "c + k + 1 < n")
      case True
      then show False using eq by simp
    next
      case False
      then have "(c + k + 1) mod n = c + k + 1 - n"
        using assms k by (simp add: mod_if)
      then show False using eq k False by simp
    qed
  qed
next
  assume "k + 1 = n"
  then have "c + k + 1 = c + n" by simp
  moreover have "(c + n) mod n = c" using assms by simp
  ultimately show "(c + k + 1) mod n = c" by (simp only:)
qed

lemma display_loop_walk:
  assumes len: "length tbl = unat sz"
    and c: "curr0 < sz"
  shows "k < unat sz \<Longrightarrow> unat i = (unat curr0 + k) mod unat sz \<Longrightarrow>
         display_loop tsc_freq dthres sz tbl curr0 i s =
           Some (display_walk tsc_freq dthres (drop k (rotate (unat curr0) tbl)) s)"
proof (induction "unat sz - k" arbitrary: k i s)
  case 0
  then show ?case by simp
next
  case (Suc d)
  let ?n = "unat sz" and ?c = "unat curr0"
  have cn: "?c < ?n" using c by (simp add: word_less_nat_alt)
  have nz: "sz \<noteq> 0" using c by auto
  have ilt: "unat i < length tbl" using Suc.prems len by simp
  then have isz: "i < sz" using len by (simp add: word_less_nat_alt)
  have kl: "k < length (rotate ?c tbl)" using Suc.prems len by simp
  have entry: "tbl ! unat i = rotate ?c tbl ! k"
    using Suc.prems len by (simp add: nth_rotate)
  have dr: "drop k (rotate ?c tbl) = (tbl ! unat i) # drop (Suc k) (rotate ?c tbl)"
    using kl entry by (simp add: Cons_nth_drop_Suc)
  have nxt: "unat ((i + 1) mod sz) = (?c + (k + 1)) mod ?n"
    using unat_next_slot [OF isz] Suc.prems(2) by (simp add: mod_Suc_eq)
  show ?case
  proof (cases "display_entry tsc_freq dthres (tbl ! unat i) s")
    case (Inl f)
    then show ?thesis
      using ilt dr by (subst display_loop.simps) simp
  next
    case (Inr s')
    show ?thesis
    proof (cases "k + 1 = ?n")
      case True
      then have "unat ((i + 1) mod sz) = ?c" using nxt cn by simp
      then have wraps: "(i + 1) mod sz = curr0" by (simp add: word_unat_eq_iff)
      have "drop (Suc k) (rotate ?c tbl) = []" using True len by simp
      then show ?thesis
        using ilt dr Inr nz wraps by (subst display_loop.simps) simp
    next
      case False
      then have k1: "k + 1 < ?n" using Suc.prems by simp
      have "unat ((i + 1) mod sz) \<noteq> ?c"
        using nxt walk_index [OF cn Suc.prems(1)] False by (simp add: add.assoc)
      then have nb: "(i + 1) mod sz \<noteq> curr0" by auto
      have d: "d = ?n - (k + 1)" using Suc.hyps(2) by simp
      have "display_loop tsc_freq dthres sz tbl curr0 ((i + 1) mod sz) s' =
              Some (display_walk tsc_freq dthres (drop (k + 1) (rotate ?c tbl)) s')"
        using Suc.hyps(1) [OF d k1 nxt] .
      then show ?thesis
        using ilt dr Inr nz nb by (subst display_loop.simps) (simp add: Let_def)
    qed
  qed
qed

lemma display_walk_filter:
  "display_walk tsc_freq dthres (filter (\<lambda>e. tsc e \<noteq> 0) es) s = display_walk tsc_freq dthres es s"
  by (induction es arbitrary: s) (auto simp: display_entry_def split: sum.splits)

lemma boottrace_display_walk:
  assumes "wf_bt btp"
  shows "boottrace_display tsc_freq btp dthres =
           Some (case display_walk tsc_freq dthres (visited btp) dstate_init of
                   Inl f \<Rightarrow> Inl f
                 | Inr s \<Rightarrow> Inr (printed_lines s @
                       [Footer (if last_msecs s > first_msecs s
                                then last_msecs s - first_msecs s else 0)]))"
proof -
  from assms obtain tbl where tb: "table btp = Some tbl"
    and len: "length tbl = unat (size_bt btp)" and cur: "curr btp < size_bt btp"
    by (auto simp: wf_bt_def split: option.splits)
  have pos: "0 < unat (size_bt btp)" using cur by (simp add: word_less_nat_alt)
  have "display_loop tsc_freq dthres (size_bt btp) tbl (curr btp) (curr btp) dstate_init =
          Some (display_walk tsc_freq dthres (drop 0 (rotate (unat (curr btp)) tbl)) dstate_init)"
    using cur by (intro display_loop_walk [OF len cur pos]) (simp add: word_less_nat_alt)
  then show ?thesis
    using tb by (simp add: boottrace_display_def visited_def display_walk_filter Let_def
        split: sum.splits)
qed

lemma event_of_req_at:
  "event_of (req_at t) = \<lparr> tsc = t, tick = 7, cpuid = 2, cputime = 1280000, inblock = 4,
      oublock = 5, pid = 41, name = ''event'', tdname = ''init'' \<rparr>"
  by (simp add: event_of_def req_at_def ctx_at_def fill_event_def default_tdname_def
      strlcpy_def BT_EVENT_NAMELEN_def BT_EVENT_TDNAMELEN_def)

lemma display_entry_visit:
  assumes "tsc e \<noteq> 0" "tsc_freq \<noteq> 0"
  shows "display_entry tsc_freq dthres e s =
     Inr \<lparr> first_msecs = track_first (msecs_of tsc_freq e) (first_msecs s),
           last_evtp = Some e,
           last_msecs = msecs_of tsc_freq e,
           last_dmsecs = delta_msecs (last_msecs s) (msecs_of tsc_freq e),
           last_printed = (dthres = 0 \<or> delta_msecs (last_msecs s) (msecs_of tsc_freq e) > dthres),
           printed_lines = printed_lines s @
             (if dthres \<noteq> 0 \<and> delta_msecs (last_msecs s) (msecs_of tsc_freq e) > dthres
              then (case last_evtp s of
                      None \<Rightarrow> []
                    | Some levtp \<Rightarrow>
                        if \<not> last_printed s
                        then [BTC_DELTA_PRINT levtp (last_msecs s) (last_dmsecs s)]
                        else []) @
                   [BTC_DELTA_PRINT e (msecs_of tsc_freq e)
                      (delta_msecs (last_msecs s) (msecs_of tsc_freq e))]
              else if dthres = 0
              then [BTC_DELTA_PRINT e (msecs_of tsc_freq e)
                      (delta_msecs (last_msecs s) (msecs_of tsc_freq e))]
              else []) \<rparr>"
  using assms by (simp add: display_entry_def msecs_of_def Let_def)

lemma display_walk_stats:
  assumes "tsc_freq \<noteq> 0" "\<forall>e \<in> set es. tsc e \<noteq> 0"
  shows "\<exists>s'. display_walk tsc_freq dthres es s = Inr s'
           \<and> first_msecs s' = fold track_first (map (msecs_of tsc_freq) es) (first_msecs s)
           \<and> last_msecs s' = last (last_msecs s # map (msecs_of tsc_freq) es)"
  using assms(2)
proof (induction es arbitrary: s)
  case Nil
  then show ?case by simp
next
  case (Cons e es)
  have "tsc e \<noteq> 0" using Cons.prems by simp
  from display_entry_visit [OF this assms(1), of dthres s]
  obtain s1 where s1: "display_entry tsc_freq dthres e s = Inr s1"
    and f1: "first_msecs s1 = track_first (msecs_of tsc_freq e) (first_msecs s)"
    and l1: "last_msecs s1 = msecs_of tsc_freq e"
    by simp
  from Cons.IH [of s1] Cons.prems
  obtain s' where "display_walk tsc_freq dthres es s1 = Inr s'"
    "first_msecs s' = fold track_first (map (msecs_of tsc_freq) es) (first_msecs s1)"
    "last_msecs s' = last (last_msecs s1 # map (msecs_of tsc_freq) es)"
    by auto
  then show ?case using s1 f1 l1 by simp
qed

lemma fold_track_first_Min:
  assumes "a \<noteq> 0" "0 \<notin> set ms"
  shows "fold track_first ms a = Min (insert a (set ms))"
  using assms
proof (induction ms arbitrary: a)
  case Nil
  then show ?case by simp
next
  case (Cons m ms)
  have t: "track_first m a = min m a" using Cons.prems by (auto simp: track_first_def min_def)
  have nz: "min m a \<noteq> 0" using Cons.prems by (auto simp: min_def)
  have "fold track_first ms (min m a) = Min (insert (min m a) (set ms))"
    using Cons.IH [OF nz] Cons.prems by simp
  also have "\<dots> = Min (insert a (set (m # ms)))"
    by (cases "set ms = {}") (simp_all add: min.commute min.left_commute)
  finally show ?case using t by simp
qed

lemma first_of_Min:
  assumes "ms \<noteq> []" "0 \<notin> set ms"
  shows "first_of ms = Min (set ms)"
proof (cases ms)
  case Nil
  then show ?thesis using assms by simp
next
  case (Cons m rest)
  then have "first_of ms = fold track_first rest m"
    by (simp add: first_of_def track_first_def)
  then show ?thesis using fold_track_first_Min [of m rest] assms Cons by simp
qed

lemma footer_of_display:
  assumes wf: "wf_bt btp" and fr: "tsc_freq \<noteq> 0"
  shows "\<exists>ls. boottrace_display tsc_freq btp dthres =
      Some (Inr (ls @ [Footer (total_of (map (msecs_of tsc_freq) (visited btp)))]))"
proof -
  have nz: "\<forall>e \<in> set (visited btp). tsc e \<noteq> 0"
    by (auto simp: visited_def split: option.splits)
  from display_walk_stats [OF fr nz, of dthres dstate_init]
  obtain s' where w: "display_walk tsc_freq dthres (visited btp) dstate_init = Inr s'"
    and f: "first_msecs s' = first_of (map (msecs_of tsc_freq) (visited btp))"
    and l: "last_msecs s' = last (0 # map (msecs_of tsc_freq) (visited btp))"
    by (auto simp: first_of_def dstate_init_def)
  have "(if last_msecs s' > first_msecs s' then last_msecs s' - first_msecs s' else 0) =
      total_of (map (msecs_of tsc_freq) (visited btp))"
    using f l by (simp add: total_of_def Let_def)
  then show ?thesis
    using boottrace_display_walk [OF wf, of tsc_freq dthres] w by simp
qed

subsection \<open>The footer\<close>

text \<open>
  Claim C7, as the code has it. For every well-formed table, every nonzero counter
  frequency and every threshold, the footer reports \<open>total_of\<close> of the \<open>msecs\<close> of the
  visited entries: the last visited entry's \<open>msecs\<close> minus \<open>first_msecs\<close> when the former is
  greater, and 0 otherwise (also when nothing was visited). \<open>first_msecs\<close> is not the
  first visited entry's value but the running minimum that \<open>track_first\<close> keeps, a
  value of 0 counting as not yet set; when no visited entry has \<open>msecs\<close> 0 it is the
  least \<open>msecs\<close> visited. The total is the same for every threshold.
\<close>

theorem display_total:
  assumes wf: "wf_bt btp" and fr: "tsc_freq \<noteq> 0"
  shows "footer_of (boottrace_display tsc_freq btp dthres) =
           Some (total_of (map (msecs_of tsc_freq) (visited btp)))
       \<and> footer_of (boottrace_display tsc_freq btp dthres) =
           footer_of (boottrace_display tsc_freq btp 0)
       \<and> (visited btp \<noteq> [] \<and> 0 \<notin> msecs_of tsc_freq ` set (visited btp) \<longrightarrow>
            first_of (map (msecs_of tsc_freq) (visited btp)) =
              Min (msecs_of tsc_freq ` set (visited btp)))"
proof -
  have a: "footer_of (boottrace_display tsc_freq btp d) =
           Some (total_of (map (msecs_of tsc_freq) (visited btp)))" for d
    using footer_of_display [OF wf fr, of d] by auto
  have c: "visited btp \<noteq> [] \<and> 0 \<notin> msecs_of tsc_freq ` set (visited btp) \<longrightarrow>
            first_of (map (msecs_of tsc_freq) (visited btp)) =
              Min (msecs_of tsc_freq ` set (visited btp))"
    using first_of_Min [of "map (msecs_of tsc_freq) (visited btp)"] by simp
  show ?thesis using a c by simp
qed

text \<open>
  Claim C7 as it is written fails when the visited entries are not in time order: for
  \<open>msecs\<close> 10, 5, 20 the footer reports \<open>20 - 5 = 15\<close>, not \<open>20 - 10 = 10\<close>.
\<close>

theorem display_total_counterexample:
  "map (msecs_of 1000) (visited (table_of [10, 5, 20])) = [10, 5, 20]
   \<and> footer_of (boottrace_display 1000 (table_of [10, 5, 20]) 0) = Some 15"
proof -
  have wf: "wf_bt (table_of [10, 5, 20])" by (simp add: wf_bt_def table_of_def)
  have v: "map (msecs_of 1000) (visited (table_of [10, 5, 20])) = [10, 5, 20]"
    by (simp add: visited_def table_of_def msecs_of_def event_of_req_at)
  have "total_of [10, 5, 20] = 15"
    by (simp add: total_of_def first_of_def track_first_def)
  then show ?thesis
    using footer_of_display [OF wf, of 1000 0] v by auto
qed

theorem display_total_witness:
  "footer_of (boottrace_display 1000 (table_of [10, 15, 65]) 40) = Some 55
   \<and> footer_of (boottrace_display 1000 (table_of [10, 15, 65]) 0) = Some 55
   \<and> visited (table_of [10, 15, 65]) \<noteq> []
   \<and> 0 \<notin> msecs_of 1000 ` set (visited (table_of [10, 15, 65]))
   \<and> Min (msecs_of 1000 ` set (visited (table_of [10, 15, 65]))) = 10"
proof -
  have wf: "wf_bt (table_of [10, 15, 65])" by (simp add: wf_bt_def table_of_def)
  have v: "map (msecs_of 1000) (visited (table_of [10, 15, 65])) = [10, 15, 65]"
    by (simp add: visited_def table_of_def msecs_of_def event_of_req_at)
  have t: "total_of [10, 15, 65] = 55" "first_of [10, 15, 65] = 10"
    by (simp_all add: total_of_def first_of_def track_first_def)
  have s: "msecs_of 1000 ` set (visited (table_of [10, 15, 65])) = {10, 15, 65}"
    using arg_cong [OF v, of set] by simp
  have ne: "visited (table_of [10, 15, 65]) \<noteq> []" using v by auto
  show ?thesis
    using display_total [OF wf, of 1000 40] v t s ne by auto
qed

subsection \<open>Filtering by the threshold\<close>

text \<open>
  Claim C2, as the code has it. When the walk of a well-formed table visits five entries
  whose successive \<open>dmsecs\<close> are 0, 5, 50, 2, 100, the output for the threshold 40 has
  exactly four rows between header and footer: the second entry (delta 5, printed as
  the landmark before the third), the third (delta 50), the fourth (delta 2, the
  landmark before the fifth) and the fifth (delta 100). The first entry is not printed.
\<close>

theorem display_threshold_rows:
  assumes wf: "wf_bt btp" and fr: "tsc_freq \<noteq> 0"
    and v: "visited btp = [e1, e2, e3, e4, e5]"
    and d: "deltas 0 (map (msecs_of tsc_freq) (visited btp)) = [0, 5, 50, 2, 100]"
  shows "boottrace_display tsc_freq btp 40 =
           Some (Inr [Header,
                      BTC_DELTA_PRINT e2 (msecs_of tsc_freq e2) 5,
                      BTC_DELTA_PRINT e3 (msecs_of tsc_freq e3) 50,
                      BTC_DELTA_PRINT e4 (msecs_of tsc_freq e4) 2,
                      BTC_DELTA_PRINT e5 (msecs_of tsc_freq e5) 100,
                      Footer (total_of (map (msecs_of tsc_freq) (visited btp)))])"
proof -
  have "set (visited btp) \<subseteq> {e. tsc e \<noteq> 0}"
    by (auto simp: visited_def split: option.splits)
  then have nz: "tsc e1 \<noteq> 0" "tsc e2 \<noteq> 0" "tsc e3 \<noteq> 0" "tsc e4 \<noteq> 0" "tsc e5 \<noteq> 0"
    using v by simp_all
  have ds: "delta_msecs 0 (msecs_of tsc_freq e1) = 0"
    "delta_msecs (msecs_of tsc_freq e1) (msecs_of tsc_freq e2) = 5"
    "delta_msecs (msecs_of tsc_freq e2) (msecs_of tsc_freq e3) = 50"
    "delta_msecs (msecs_of tsc_freq e3) (msecs_of tsc_freq e4) = 2"
    "delta_msecs (msecs_of tsc_freq e4) (msecs_of tsc_freq e5) = 100"
    using d v by simp_all
  have w: "display_walk tsc_freq 40 [e1, e2, e3, e4, e5] dstate_init =
      Inr \<lparr> first_msecs = first_of (map (msecs_of tsc_freq) [e1, e2, e3, e4, e5]),
            last_evtp = Some e5,
            last_msecs = msecs_of tsc_freq e5,
            last_dmsecs = 100,
            last_printed = True,
            printed_lines = [Header,
                      BTC_DELTA_PRINT e2 (msecs_of tsc_freq e2) 5,
                      BTC_DELTA_PRINT e3 (msecs_of tsc_freq e3) 50,
                      BTC_DELTA_PRINT e4 (msecs_of tsc_freq e4) 2,
                      BTC_DELTA_PRINT e5 (msecs_of tsc_freq e5) 100] \<rparr>"
    by (simp add: display_entry_visit [OF _ fr] nz ds dstate_init_def first_of_def)
  show ?thesis
    unfolding boottrace_display_walk [OF wf] v w
    by (simp add: total_of_def Let_def)
qed

theorem display_threshold_rows_witness:
  "boottrace_display 1000 (table_of [10, 15, 65, 67, 167]) 40 =
           Some (Inr [Header,
                      BTC_DELTA_PRINT (event_of (req_at 15)) 15 5,
                      BTC_DELTA_PRINT (event_of (req_at 65)) 65 50,
                      BTC_DELTA_PRINT (event_of (req_at 67)) 67 2,
                      BTC_DELTA_PRINT (event_of (req_at 167)) 167 100,
                      Footer 157])"
proof -
  let ?b = "table_of [10, 15, 65, 67, 167]"
  have wf: "wf_bt ?b" by (simp add: wf_bt_def table_of_def)
  have v: "visited ?b = [event_of (req_at 10), event_of (req_at 15), event_of (req_at 65),
                         event_of (req_at 67), event_of (req_at 167)]"
    by (simp add: visited_def table_of_def event_of_req_at)
  have m: "map (msecs_of 1000) (visited ?b) = [10, 15, 65, 67, 167]"
    by (simp add: v msecs_of_def event_of_req_at)
  have d: "deltas 0 (map (msecs_of 1000) (visited ?b)) = [0, 5, 50, 2, 100]"
    by (simp add: m delta_msecs_def)
  have t: "total_of [10, 15, 65, 67, 167] = 157"
    by (simp add: total_of_def first_of_def track_first_def)
  have ms: "msecs_of 1000 (event_of (req_at 15)) = 15" "msecs_of 1000 (event_of (req_at 65)) = 65"
     "msecs_of 1000 (event_of (req_at 67)) = 67" "msecs_of 1000 (event_of (req_at 167)) = 167"
    by (simp_all add: msecs_of_def event_of_req_at)
  show ?thesis
    using display_threshold_rows [OF wf _ v d] m t ms by simp
qed

text \<open>
  Claim C2 as it is written fails on such a table: the output has four rows, not three;
  the rows with delta 5 and delta 2 are printed and the first row is not.
\<close>

theorem display_threshold_rows_counterexample:
  "deltas 0 (map (msecs_of 1000) (visited (table_of [10, 15, 65, 67, 167]))) = [0, 5, 50, 2, 100]
   \<and> data_rows (boottrace_display 1000 (table_of [10, 15, 65, 67, 167]) 40) =
         [Row 2 15 5 ''init'' ''event'' 41 1 28 4 5,
          Row 2 65 50 ''init'' ''event'' 41 1 28 4 5,
          Row 2 67 2 ''init'' ''event'' 41 1 28 4 5,
          Row 2 167 100 ''init'' ''event'' 41 1 28 4 5]"
proof -
  let ?b = "table_of [10, 15, 65, 67, 167]"
  have wf: "wf_bt ?b" by (simp add: wf_bt_def table_of_def)
  have v: "visited ?b = [event_of (req_at 10), event_of (req_at 15), event_of (req_at 65),
                         event_of (req_at 67), event_of (req_at 167)]"
    by (simp add: visited_def table_of_def event_of_req_at)
  have m: "map (msecs_of 1000) (visited ?b) = [10, 15, 65, 67, 167]"
    by (simp add: v msecs_of_def event_of_req_at)
  have d: "deltas 0 (map (msecs_of 1000) (visited ?b)) = [0, 5, 50, 2, 100]"
    by (simp add: m delta_msecs_def)
  have "data_rows (boottrace_display 1000 ?b 40) =
         [Row 2 15 5 ''init'' ''event'' 41 1 28 4 5,
          Row 2 65 50 ''init'' ''event'' 41 1 28 4 5,
          Row 2 67 2 ''init'' ''event'' 41 1 28 4 5,
          Row 2 167 100 ''init'' ''event'' 41 1 28 4 5]"
    unfolding boottrace_display_walk [OF wf] v
    by (simp add: display_entry_def event_of_req_at dstate_init_def delta_msecs_def
        track_first_def BTC_DELTA_PRINT_def Let_def)
  with d show ?thesis by simp
qed

subsection \<open>The boot table after initialisation\<close>

lemma init_bsize:
  fixes v :: "32 word"
  shows "1 < max v BT_TABLE_MINSIZE"
proof -
  have "(1 :: 32 word) < BT_TABLE_MINSIZE" by (simp add: BT_TABLE_MINSIZE_def)
  then show ?thesis by (simp add: less_max_iff_disj)
qed

lemma fresh_boot_table:
  "wf_bt (bt (boottrace_init c tunable g)) \<and> visited (bt (boottrace_init c tunable g)) = []"
proof -
  let ?b = "bt (boottrace_init c tunable g)"
  obtain sz e where tb: "table ?b = Some ((replicate (unat sz) zero_event)[0 := e])"
    and e: "tsc e = 0" and sz: "size_bt ?b = sz" "1 < sz" and cur: "curr ?b = 1"
    by (simp add: boottrace_init_def Let_def init_bsize)
  have "\<forall>x \<in> set ((replicate (unat sz) zero_event)[0 := e]). tsc x = 0"
    using e set_update_subset_insert [of "replicate (unat sz) zero_event" 0 e]
    by (auto simp: zero_event_def)
  then have "visited ?b = []"
    using tb by (simp add: visited_def filter_empty_conv)
  moreover have "wf_bt ?b" using tb sz cur by (simp add: wf_bt_def)
  ultimately show ?thesis by simp
qed

lemma seeded_entry:
  "\<exists>tbl. table (bt (boottrace_init c tunable g)) = Some tbl \<and> 
      name (tbl ! 0) = ''initial event'' \<and> tdname (tbl ! 0) = ''boottime'' \<and> tsc (tbl ! 0) = 0
      \<and> tick (tbl ! 0) = 0"
  using init_bsize [of "case tunable of None \<Rightarrow> BT_TABLE_DEFSIZE | Some v \<Rightarrow> v"]
  apply (simp add: boottrace_init_def Let_def strlcpy_def BT_EVENT_NAMELEN_def BT_EVENT_TDNAMELEN_def)
  apply (simp add: word_less_nat_alt)
  done

lemma display_fresh_boot_table:
  "boottrace_display tsc_freq (bt (boottrace_init c tunable g)) dthres = Some (Inr [Header, Footer 0])"
  using boottrace_display_walk [of "bt (boottrace_init c tunable g)" tsc_freq dthres]
    fresh_boot_table [of c tunable g]
  by (simp add: dstate_init_def)

text \<open>
  Claim C5 at the boot table that \<open>boottrace_init\<close> builds. The code seeds slot 0
  with the names \<open>initial event\<close> and \<open>boottime\<close> and sets the cursor to 1, under
  the comment "Stick in initial entry with machdep times", but the times it stores are
  \<open>tsc = 0\<close> and \<open>tick = 0\<close>, and \<open>tsc = 0\<close> is the value by which
  \<open>boottrace_display\<close> recognises an unused slot. The seeded entry is therefore never
  rendered: for every counter frequency, every tunable size and every context the dump
  is the header followed by the footer of 0, and at the default size it has no data row
  where the claim has exactly one.
\<close>

theorem dump_fresh_boot_table:
  "boottrace_display tsc_freq (bt (boottrace_init c tunable g)) 0 = Some (Inr [Header, Footer 0])
   \<and> curr (bt (boottrace_init c tunable g)) = 1
   \<and> (\<exists>tbl. table (bt (boottrace_init c tunable g)) = Some tbl
              \<and> name (tbl ! 0) = ''initial event'' \<and> tdname (tbl ! 0) = ''boottime''
              \<and> tsc (tbl ! 0) = 0 \<and> tick (tbl ! 0) = 0)
   \<and> boottrace_display 1000 (bt (boottrace_init (ctx_at 0) None globals_zero)) 0 =
         Some (Inr [Header, Footer 0])
   \<and> data_rows (boottrace_display 1000 (bt (boottrace_init (ctx_at 0) None globals_zero)) 0) = []"
proof -
  have "curr (bt (boottrace_init c tunable g)) = 1"
    by (simp add: boottrace_init_def Let_def)
  then show ?thesis
    using display_fresh_boot_table [of tsc_freq c tunable g 0] seeded_entry [of c tunable g]
    by (simp add: display_fresh_boot_table)
qed

subsection \<open>Routing between the tables\<close>

lemma dotrace_returns:
  assumes "dotrace c b eventname tdname0 = Inr (e, b')"
  shows "e = 0 \<or> e = ENOSPC"
  using assms by (auto simp: dotrace_def Let_def split: option.splits if_splits)

lemma dotrace_at_flags:
  assumes "dotrace_at c g w eventname tdname0 = Inr (e, g')"
  shows "bootdone g' = bootdone g \<and> shutdown g' = shutdown g \<and> (e = 0 \<or> e = ENOSPC)"
  using assms
  by (cases w) (auto simp: dotrace_at_def split: sum.splits dest: dotrace_returns)

lemma dotrace_at_ST:
  assumes "dotrace_at c g ST eventname tdname0 = Inr (e, g')"
  shows "bt g' = bt g \<and> rt g' = rt g"
  using assms by (auto simp: dotrace_at_def split: sum.splits)

lemma boottrace_trace_eq:
  "boottrace_trace c g =
     (if shutdown g \<or> rebooting c \<or> panicstr c then ST else if \<not> bootdone g then BT else RT)"
  by (simp add: boottrace_trace_def)

lemma do_call_latched:
  assumes sh: "shutdown g" and r: "do_call c g k = Inr (e, g')"
  shows "shutdown g' \<and> bt g' = bt g \<and> curr (rt g') = curr (rt g)
         \<and> drops_early (rt g') = drops_early (rt g) \<and> drops_full (rt g') = drops_full (rt g)"
proof (cases k)
  case (Boottrace ev td)
  then have "dotrace_at c g ST ev td = Inr (e, g')"
    using r sh by (simp add: boottrace_def boottrace_trace_eq)
  then show ?thesis using sh dotrace_at_flags dotrace_at_ST by metis
next
  case (Runtrace ev td)
  then obtain g1 where "dotrace_at c g ST ev td = Inr (e, g1)" "g' = g1\<lparr>bootdone := True\<rparr>"
    using r sh by (auto simp: runtrace_def boottrace_def boottrace_trace_eq split: sum.splits)
  then show ?thesis using sh dotrace_at_flags [of c g ST ev td e g1] dotrace_at_ST [of c g ev td e g1] by simp
next
  case (Shuttrace ev td)
  then have d: "dotrace_at c (g\<lparr>shutdown := True\<rparr>) ST ev td = Inr (e, g')"
    using r by (simp add: shuttrace_def)
  show ?thesis using dotrace_at_flags [OF d] dotrace_at_ST [OF d] by simp
next
  case (Reset actor)
  then obtain e1 g1 where "dotrace_at c g ST (take 63 (''reset: '' @ actor)) None = Inr (e1, g1)"
    "g' = g1\<lparr>bootdone := True\<rparr>"
    using r sh by (auto simp: boottrace_reset_def runtrace_def boottrace_def boottrace_trace_eq
        split: sum.splits)
  then show ?thesis using sh dotrace_at_flags [of c g ST _ None e1 g1] dotrace_at_ST [of c g _ None e1 g1]
    by simp
next
  case (Resize avail n)
  show ?thesis
  proof (cases "n \<le> size_bt (rt g)")
    case True
    then show ?thesis using r Resize sh by (simp add: boottrace_resize_def)
  next
    case False
    let ?g1 = "g\<lparr>rt := (rt g)\<lparr>table := realloc avail (table (rt g)) (unat n)\<rparr>\<rparr>"
    show ?thesis
    proof (cases "table (rt ?g1) = None")
      case True
      then have "g' = ?g1" using r Resize False by (simp add: boottrace_resize_def Let_def)
      then show ?thesis using sh by simp
    next
      case nn: False
      let ?g2 = "?g1\<lparr>rt := (rt ?g1)\<lparr>size_bt := n\<rparr>\<rparr>"
      have sh2: "shutdown ?g2" using sh by simp
      from r Resize False nn obtain e1 g1 where
        "dotrace_at c ?g2 ST (take 63 (''reset: '' @ ''boottrace_resize'')) None = Inr (e1, g1)"
        "g' = g1\<lparr>bootdone := True\<rparr>"
        using sh2
        by (auto simp: boottrace_resize_def Let_def boottrace_reset_def runtrace_def
            boottrace_def boottrace_trace_eq split: sum.splits)
      then show ?thesis
        using sh dotrace_at_flags [of c ?g2 ST _ None e1 g1] dotrace_at_ST [of c ?g2 _ None e1 g1]
        by simp
    qed
  qed
qed

lemma run_calls_latched:
  assumes "shutdown g" "run_calls ks g = Inr (es, g')"
  shows "shutdown g' \<and> bt g' = bt g \<and> curr (rt g') = curr (rt g)
         \<and> drops_early (rt g') = drops_early (rt g) \<and> drops_full (rt g') = drops_full (rt g)"
  using assms
proof (induction ks arbitrary: g es)
  case Nil
  then show ?case by simp
next
  case (Cons ck ks)
  obtain c k where ck: "ck = (c, k)" by (cases ck)
  from Cons.prems(2) ck obtain e g1 es1 where
    d: "do_call c g k = Inr (e, g1)" and rest: "run_calls ks g1 = Inr (es1, g')"
    by (auto split: sum.splits)
  from do_call_latched [OF Cons.prems(1) d] Cons.IH [OF _ rest]
  show ?case by simp
qed

lemma dotrace_at_effect:
  "dotrace_at c g BT eventname tdname0 =
     (case dotrace c (bt g) eventname tdname0 of
        Inl f \<Rightarrow> Inl f | Inr (e, b) \<Rightarrow> Inr (e, g\<lparr>bt := b\<rparr>))"
  "dotrace_at c g RT eventname tdname0 =
     (case dotrace c (rt g) eventname tdname0 of
        Inl f \<Rightarrow> Inl f | Inr (e, b) \<Rightarrow> Inr (e, g\<lparr>rt := b\<rparr>))"
  "dotrace_at c g ST eventname tdname0 =
     (case dotrace c (st g) eventname tdname0 of
        Inl f \<Rightarrow> Inl f | Inr (e, b) \<Rightarrow> Inr (e, g\<lparr>st := b\<rparr>))"
  by (simp_all add: dotrace_at_def split: sum.splits)

lemma dotrace_at_ST_st:
  assumes "dotrace_at c g ST eventname tdname0 = Inr (e, g')"
  shows "dotrace c (st g) eventname tdname0 = Inr (e, st g')" and "rt g' = rt g"
  using assms by (auto simp: dotrace_at_def split: sum.splits)

lemma do_call_latched_st:
  assumes sh: "shutdown g" and r: "do_call c g k = Inr (e, g1)"
    and rest: "dotrace_seq (requests_of ks (size_bt (rt g1))) (st g1) = Inr (es, b)"
  shows "\<exists>es'. dotrace_seq (requests_of ((c, k) # ks) (size_bt (rt g))) (st g) = Inr (es', b)"
proof (cases k)
  case (Boottrace ev td)
  then have "dotrace_at c g ST ev td = Inr (e, g1)"
    using r sh by (simp add: boottrace_def boottrace_trace_eq)
  from dotrace_at_ST_st [OF this] show ?thesis using Boottrace rest by simp
next
  case (Runtrace ev td)
  then obtain g2 where d: "dotrace_at c g ST ev td = Inr (e, g2)" and g1: "g1 = g2\<lparr>bootdone := True\<rparr>"
    using r sh by (auto simp: runtrace_def boottrace_def boottrace_trace_eq split: sum.splits)
  from dotrace_at_ST_st [OF d] show ?thesis using Runtrace rest g1 by simp
next
  case (Shuttrace ev td)
  then have d: "dotrace_at c (g\<lparr>shutdown := True\<rparr>) ST ev td = Inr (e, g1)"
    using r by (simp add: shuttrace_def)
  from dotrace_at_ST_st [OF d] show ?thesis using Shuttrace rest by simp
next
  case (Reset actor)
  then obtain e2 g2 where d: "dotrace_at c g ST (take 63 (''reset: '' @ actor)) None = Inr (e2, g2)"
    and g1: "g1 = g2\<lparr>bootdone := True\<rparr>"
    using r sh by (auto simp: boottrace_reset_def runtrace_def boottrace_def boottrace_trace_eq
        split: sum.splits)
  from dotrace_at_ST_st [OF d] show ?thesis using Reset rest g1 by simp
next
  case (Resize avail n)
  show ?thesis
  proof (cases "n \<le> size_bt (rt g)")
    case True
    then have "g1 = g" using r Resize by (simp add: boottrace_resize_def)
    then show ?thesis using Resize True rest by auto
  next
    case False
    show ?thesis
    proof (cases avail)
      case na: False
      then have "g1 = g\<lparr>rt := (rt g)\<lparr>table := None\<rparr>\<rparr>"
        using r Resize False by (simp add: boottrace_resize_def Let_def realloc_def)
      then show ?thesis using Resize False na rest by auto
    next
      case av: True
      let ?g2 = "g\<lparr>rt := (rt g)\<lparr>table := realloc True (table (rt g)) (unat n), size_bt := n\<rparr>\<rparr>"
      have nn: "realloc True (table (rt g)) (unat n) \<noteq> None"
        by (simp add: realloc_def split: option.splits)
      from r Resize False av nn obtain e2 g3 where
        d: "dotrace_at c ?g2 ST (take 63 (''reset: '' @ ''boottrace_resize'')) None = Inr (e2, g3)"
        and g1: "g1 = g3\<lparr>bootdone := True\<rparr>"
        using sh
        by (auto simp: boottrace_resize_def Let_def boottrace_reset_def runtrace_def
            boottrace_def boottrace_trace_eq split: sum.splits)
      have "dotrace c (st g) (take 63 (''reset: '' @ ''boottrace_resize'')) None = Inr (e2, st g3)"
        "rt g3 = rt ?g2"
        using dotrace_at_ST_st [OF d] by simp_all
      then show ?thesis using Resize False av rest g1 by simp
    qed
  qed
qed

lemma run_calls_latched_st:
  assumes "shutdown g" "run_calls ks g = Inr (es, g')"
  shows "\<exists>es'. dotrace_seq (requests_of ks (size_bt (rt g))) (st g) = Inr (es', st g')"
  using assms
proof (induction ks arbitrary: g es)
  case Nil
  then show ?case by simp
next
  case (Cons ck ks)
  obtain c k where ck: "ck = (c, k)" by (cases ck)
  from Cons.prems(2) ck obtain e g1 es1 where
    d: "do_call c g k = Inr (e, g1)" and rest: "run_calls ks g1 = Inr (es1, g')"
    by (auto split: sum.splits)
  have sh1: "shutdown g1" using do_call_latched [OF Cons.prems(1) d] by simp
  from Cons.IH [OF sh1 rest] obtain es2 where
    "dotrace_seq (requests_of ks (size_bt (rt g1))) (st g1) = Inr (es2, st g')" by blast
  from do_call_latched_st [OF Cons.prems(1) d this] show ?case using ck by simp
qed


text \<open>
  Claim C4. \<open>boottrace\<close> hands its event to \<open>dotrace\<close> on the shutdown table when
  \<open>shutdown\<close> is set or the kernel is rebooting or has panicked, and otherwise on the
  boot table while \<open>bootdone\<close> is false and on the run table once it is true; what
  \<open>dotrace\<close> makes of that table is stored back into it and the other two tables stay
  as they were. \<open>runtrace\<close> is \<open>boottrace\<close> followed by setting \<open>bootdone\<close>;
  \<open>shuttrace\<close> sets \<open>shutdown\<close> and calls \<open>dotrace\<close> on the shutdown table. Once
  \<open>shutdown\<close> is set, it stays set through every sequence of calls (plain, run,
  shutdown, reset, resize): after any such sequence \<open>boottrace\<close> still selects the
  shutdown table, the boot table is as it was, no slot of the run table was claimed or
  refused, and the shutdown table is what the calls of \<open>dotrace\<close> for all the events
  of the sequence, in order, make of it.
\<close>

theorem phase_routing:
  "(\<not> (shutdown g \<or> rebooting c \<or> panicstr c) \<and> \<not> bootdone g \<longrightarrow>
      boottrace c g eventname tdname0 =
        (case dotrace c (bt g) eventname tdname0 of
           Inl f \<Rightarrow> Inl f
         | Inr (e, b) \<Rightarrow> Inr (e, g\<lparr>bt := b\<rparr>)))
   \<and> (\<not> (shutdown g \<or> rebooting c \<or> panicstr c) \<and> bootdone g \<longrightarrow>
      boottrace c g eventname tdname0 =
        (case dotrace c (rt g) eventname tdname0 of
           Inl f \<Rightarrow> Inl f
         | Inr (e, b) \<Rightarrow> Inr (e, g\<lparr>rt := b\<rparr>)))
   \<and> (shutdown g \<or> rebooting c \<or> panicstr c \<longrightarrow>
      boottrace c g eventname tdname0 =
        (case dotrace c (st g) eventname tdname0 of
           Inl f \<Rightarrow> Inl f
         | Inr (e, b) \<Rightarrow> Inr (e, g\<lparr>st := b\<rparr>)))
   \<and> runtrace c g eventname tdname0 =
        (case boottrace c g eventname tdname0 of
           Inl f \<Rightarrow> Inl f
         | Inr (e, g1) \<Rightarrow> Inr (e, g1\<lparr>bootdone := True\<rparr>))
   \<and> shuttrace c g eventname tdname0 =
        (case dotrace c (st g) eventname tdname0 of
           Inl f \<Rightarrow> Inl f
         | Inr (e, b) \<Rightarrow> Inr (e, g\<lparr>shutdown := True, st := b\<rparr>))
   \<and> (shutdown g \<and> run_calls ks g = Inr (es, g') \<longrightarrow>
        shutdown g' \<and> (\<forall>c'. boottrace_trace c' g' = ST) \<and> bt g' = bt g
        \<and> curr (rt g') = curr (rt g) \<and> drops_early (rt g') = drops_early (rt g)
        \<and> drops_full (rt g') = drops_full (rt g)
        \<and> (\<exists>es'. dotrace_seq (requests_of ks (size_bt (rt g))) (st g) = Inr (es', st g')))"
proof -
  have a: "\<not> (shutdown g \<or> rebooting c \<or> panicstr c) \<and> \<not> bootdone g \<longrightarrow>
      boottrace c g eventname tdname0 =
        (case dotrace c (bt g) eventname tdname0 of
           Inl f \<Rightarrow> Inl f
         | Inr (e, b) \<Rightarrow> Inr (e, g\<lparr>bt := b\<rparr>))"
    by (simp add: boottrace_def boottrace_trace_eq dotrace_at_effect)
  have b: "\<not> (shutdown g \<or> rebooting c \<or> panicstr c) \<and> bootdone g \<longrightarrow>
      boottrace c g eventname tdname0 =
        (case dotrace c (rt g) eventname tdname0 of
           Inl f \<Rightarrow> Inl f
         | Inr (e, b) \<Rightarrow> Inr (e, g\<lparr>rt := b\<rparr>))"
    by (simp add: boottrace_def boottrace_trace_eq dotrace_at_effect)
  have c: "shutdown g \<or> rebooting c \<or> panicstr c \<longrightarrow>
      boottrace c g eventname tdname0 =
        (case dotrace c (st g) eventname tdname0 of
           Inl f \<Rightarrow> Inl f
         | Inr (e, b) \<Rightarrow> Inr (e, g\<lparr>st := b\<rparr>))"
    by (auto simp: boottrace_def boottrace_trace_eq dotrace_at_effect)
  have d: "runtrace c g eventname tdname0 =
        (case boottrace c g eventname tdname0 of
           Inl f \<Rightarrow> Inl f
         | Inr (e, g1) \<Rightarrow> Inr (e, g1\<lparr>bootdone := True\<rparr>))"
    by (simp only: runtrace_def)
  have e: "shuttrace c g eventname tdname0 =
        (case dotrace c (st g) eventname tdname0 of
           Inl f \<Rightarrow> Inl f
         | Inr (e, b) \<Rightarrow> Inr (e, g\<lparr>shutdown := True, st := b\<rparr>))"
    by (simp add: shuttrace_def dotrace_at_effect split: sum.splits)
  have f: "shutdown g \<and> run_calls ks g = Inr (es, g') \<longrightarrow>
        shutdown g' \<and> (\<forall>c'. boottrace_trace c' g' = ST) \<and> bt g' = bt g
        \<and> curr (rt g') = curr (rt g) \<and> drops_early (rt g') = drops_early (rt g)
        \<and> drops_full (rt g') = drops_full (rt g)
        \<and> (\<exists>es'. dotrace_seq (requests_of ks (size_bt (rt g))) (st g) = Inr (es', st g'))"
    using run_calls_latched [of g ks es g'] run_calls_latched_st [of g ks es g']
    by (simp add: boottrace_trace_eq)
  from a b c d e f show ?thesis by (intro conjI)
qed


lemma booted_tables:
  "bt globals_booted = \<lparr> size_bt = 3000, curr = 1, wrap = 0, drops_early = 0, drops_full = 0,
       table = Some ((replicate 3000 zero_event)
                 [0 := zero_event\<lparr> cpuid := 2, tdname := ''boottime'', name := ''initial event'' \<rparr>]) \<rparr>"
  "rt globals_booted = empty_bt 2000 1"
  "st globals_booted = empty_bt 1000 0"
  "bootdone globals_booted = False"
  "shutdown globals_booted = False"
  by (simp_all add: globals_booted_def boottrace_init_def globals_zero_def empty_bt_def Let_def
      BT_TABLE_DEFSIZE_def BT_TABLE_MINSIZE_def BT_TABLE_RUNSIZE_def BT_TABLE_SHTSIZE_def
      strlcpy_def BT_EVENT_NAMELEN_def BT_EVENT_TDNAMELEN_def ctx_at_def zero_event_def)

lemma ctx_at_alive: "\<not> rebooting (ctx_at t)" "\<not> panicstr (ctx_at t)"
  by (simp_all add: ctx_at_def)

lemma latched_step_boottrace:
  "boottrace (ctx_at 20) (globals_booted\<lparr>shutdown := True\<rparr>) ''late'' None =
     Inr (0, globals_booted\<lparr>shutdown := True,
             st := (empty_bt 1000 0)\<lparr>curr := 1,
                     table := Some ((replicate 1000 zero_event)
                                [0 := event_of (ctx_at 20, ''late'', None)])\<rparr>\<rparr>)"
  by (simp add: boottrace_def boottrace_trace_def dotrace_at_def dotrace_def
      booted_tables empty_bt_def event_of_def Let_def)

lemma latched_step_runtrace:
  "runtrace (ctx_at 30) (globals_booted\<lparr>shutdown := True,
             st := (empty_bt 1000 0)\<lparr>curr := 1,
                     table := Some ((replicate 1000 zero_event)
                                [0 := event_of (ctx_at 20, ''late'', None)])\<rparr>\<rparr>) ''later'' None =
     Inr (0, globals_booted\<lparr>shutdown := True, bootdone := True,
             st := (empty_bt 1000 0)\<lparr>curr := 2,
                     table := Some ((replicate 1000 zero_event)
                                [0 := event_of (ctx_at 20, ''late'', None),
                                 1 := event_of (ctx_at 30, ''later'', None)])\<rparr>\<rparr>)"
  apply (simp add: runtrace_def boottrace_def boottrace_trace_def dotrace_at_def)
  apply (simp add: dotrace_def empty_bt_def Let_def)
  apply (simp add: event_of_def)
  done

lemma latched_run:
  "run_calls [(ctx_at 20, Boottrace ''late'' None), (ctx_at 30, Runtrace ''later'' None)]
       (globals_booted\<lparr>shutdown := True\<rparr>) =
     Inr ([0, 0],
          globals_booted\<lparr>shutdown := True, bootdone := True,
             st := (empty_bt 1000 0)\<lparr>curr := 2,
                     table := Some ((replicate 1000 zero_event)
                                [0 := event_of (ctx_at 20, ''late'', None),
                                 1 := event_of (ctx_at 30, ''later'', None)])\<rparr>\<rparr>)"
  by (simp only: run_calls.simps do_call.simps latched_step_boottrace latched_step_runtrace sum.case prod.case)

lemma booted_dotrace_bt:
  "dotrace (ctx_at 10) (bt globals_booted) ''up'' None =
     Inr (0, (bt globals_booted)\<lparr>curr := 2,
                  table := Some ((replicate 3000 zero_event)
                     [0 := zero_event\<lparr> cpuid := 2, tdname := ''boottime'', name := ''initial event'' \<rparr>,
                      1 := event_of (ctx_at 10, ''up'', None)])\<rparr>)"
  apply (simp add: booted_tables dotrace_def Let_def)
  apply (simp add: event_of_def)
  done

lemma running_dotrace_rt:
  "dotrace (ctx_at 30) (rt globals_running) ''tick'' None =
     Inr (0, (rt globals_running)\<lparr>curr := 2,
                  table := Some ((replicate 2000 zero_event)
                     [0 := event_of (ctx_at 20, ''ready'', None),
                      1 := event_of (ctx_at 30, ''tick'', None)])\<rparr>)"
  apply (simp add: globals_running_def empty_bt_def dotrace_def Let_def)
  apply (simp add: event_of_def)
  done

theorem phase_routing_witness:
  "boottrace (ctx_at 10) globals_booted ''up'' None =
     Inr (0, globals_booted\<lparr>bt := (bt globals_booted)\<lparr>curr := 2,
                  table := Some ((replicate 3000 zero_event)
                     [0 := zero_event\<lparr> cpuid := 2, tdname := ''boottime'', name := ''initial event'' \<rparr>,
                      1 := event_of (ctx_at 10, ''up'', None)])\<rparr>\<rparr>)
   \<and> boottrace (ctx_at 30) globals_running ''tick'' None =
     Inr (0, globals_running\<lparr>rt := (rt globals_running)\<lparr>curr := 2,
                  table := Some ((replicate 2000 zero_event)
                     [0 := event_of (ctx_at 20, ''ready'', None),
                      1 := event_of (ctx_at 30, ''tick'', None)])\<rparr>\<rparr>)
   \<and> (\<exists>g'. run_calls [(ctx_at 20, Boottrace ''late'' None), (ctx_at 30, Runtrace ''later'' None)]
                (globals_booted\<lparr>shutdown := True\<rparr>) = Inr ([0, 0], g')
            \<and> shutdown g' \<and> (\<forall>c'. boottrace_trace c' g' = ST)
            \<and> bt g' = bt globals_booted \<and> curr (rt g') = 0
            \<and> table (st g') =
                Some ([event_of (ctx_at 20, ''late'', None), event_of (ctx_at 30, ''later'', None)]
                      @ replicate 998 zero_event))"
proof -
  let ?g = "globals_booted\<lparr>shutdown := True\<rparr>"
  let ?ks = "[(ctx_at 20, Boottrace ''late'' None), (ctx_at 30, Runtrace ''later'' None)]"
  let ?rs = "[(ctx_at 20, ''late'', None), (ctx_at 30, ''later'', None)]"
  have boot: "\<not> (shutdown globals_booted \<or> rebooting (ctx_at 10) \<or> panicstr (ctx_at 10))
      \<and> \<not> bootdone globals_booted"
    by (simp add: booted_tables ctx_at_alive)
  have w1: "boottrace (ctx_at 10) globals_booted ''up'' None =
      (case dotrace (ctx_at 10) (bt globals_booted) ''up'' None of
         Inl f \<Rightarrow> Inl f
       | Inr (e, b) \<Rightarrow> Inr (e, globals_booted\<lparr>bt := b\<rparr>))"
    using phase_routing [of globals_booted "ctx_at 10" "''up''" None "[]" "[]" globals_booted] boot
    by blast
  have running: "\<not> (shutdown globals_running \<or> rebooting (ctx_at 30) \<or> panicstr (ctx_at 30))
      \<and> bootdone globals_running"
    by (simp add: globals_running_def booted_tables ctx_at_alive)
  have w2: "boottrace (ctx_at 30) globals_running ''tick'' None =
      (case dotrace (ctx_at 30) (rt globals_running) ''tick'' None of
         Inl f \<Rightarrow> Inl f
       | Inr (e, b) \<Rightarrow> Inr (e, globals_running\<lparr>rt := b\<rparr>))"
    using phase_routing [of globals_running "ctx_at 30" "''tick''" None "[]" "[]" globals_running]
      running
    by blast
  obtain g' where run: "run_calls ?ks ?g = Inr ([0, 0], g')"
    using latched_run by blast
  have sh: "shutdown ?g" by simp
  have "shutdown ?g \<and> run_calls ?ks ?g = Inr ([0, 0], g') \<longrightarrow>
        shutdown g' \<and> (\<forall>c'. boottrace_trace c' g' = ST) \<and> bt g' = bt ?g
        \<and> curr (rt g') = curr (rt ?g) \<and> drops_early (rt g') = drops_early (rt ?g)
        \<and> drops_full (rt g') = drops_full (rt ?g)
        \<and> (\<exists>es'. dotrace_seq (requests_of ?ks (size_bt (rt ?g))) (st ?g) = Inr (es', st g'))"
    using phase_routing [of ?g "ctx_at 0" "[]" None ?ks "[0, 0]" g'] by blast
  with sh run obtain es' where lat: "shutdown g'" "\<forall>c'. boottrace_trace c' g' = ST"
    "bt g' = bt ?g" "curr (rt g') = curr (rt ?g)"
    and seq: "dotrace_seq (requests_of ?ks (size_bt (rt ?g))) (st ?g) = Inr (es', st g')"
    by blast
  have rq: "requests_of ?ks (size_bt (rt ?g)) = ?rs" by simp
  have stg: "st ?g = empty_bt 1000 0" by (simp add: booted_tables)
  have tb: "table (empty_bt 1000 0) = Some (replicate 1000 zero_event)"
    and ln: "length (replicate 1000 zero_event) = unat (size_bt (empty_bt 1000 0))"
    and rm: "unat (curr (empty_bt 1000 0)) + length ?rs < unat (size_bt (empty_bt 1000 0))"
    by (simp_all add: empty_bt_def)
  have sq: "dotrace_seq ?rs (empty_bt 1000 0) = Inr (es', st g')"
    using seq rq stg by simp
  have "table (st g') =
      Some (take (unat (curr (empty_bt 1000 0))) (replicate 1000 zero_event)
            @ map event_of ?rs
            @ drop (unat (curr (empty_bt 1000 0)) + length ?rs) (replicate 1000 zero_event))"
    using dotrace_seq_room [OF tb ln rm] sq by auto
  then have "table (st g') =
      Some ([event_of (ctx_at 20, ''late'', None), event_of (ctx_at 30, ''later'', None)]
            @ replicate 998 zero_event)"
    by (simp add: empty_bt_def)
  moreover have "bt ?g = bt globals_booted" "curr (rt ?g) = 0"
    by (simp_all add: booted_tables empty_bt_def)
  ultimately have third: "\<exists>g'. run_calls ?ks ?g = Inr ([0, 0], g')
            \<and> shutdown g' \<and> (\<forall>c'. boottrace_trace c' g' = ST)
            \<and> bt g' = bt globals_booted \<and> curr (rt g') = 0
            \<and> table (st g') =
                Some ([event_of (ctx_at 20, ''late'', None), event_of (ctx_at 30, ''later'', None)]
                      @ replicate 998 zero_event)"
    using run lat by auto
  have first: "boottrace (ctx_at 10) globals_booted ''up'' None =
     Inr (0, globals_booted\<lparr>bt := (bt globals_booted)\<lparr>curr := 2,
                  table := Some ((replicate 3000 zero_event)
                     [0 := zero_event\<lparr> cpuid := 2, tdname := ''boottime'', name := ''initial event'' \<rparr>,
                      1 := event_of (ctx_at 10, ''up'', None)])\<rparr>\<rparr>)"
    by (simp only: w1 booted_dotrace_bt sum.case prod.case)
  have second: "boottrace (ctx_at 30) globals_running ''tick'' None =
     Inr (0, globals_running\<lparr>rt := (rt globals_running)\<lparr>curr := 2,
                  table := Some ((replicate 2000 zero_event)
                     [0 := event_of (ctx_at 20, ''ready'', None),
                      1 := event_of (ctx_at 30, ''tick'', None)])\<rparr>\<rparr>)"
    by (simp only: w2 running_dotrace_rt sum.case prod.case)
  from first second third show ?thesis by (intro conjI)
qed

subsection \<open>The flag bootdone\<close>

lemma do_call_keeps_bootdone:
  assumes b: "bootdone g" and r: "do_call c g k = Inr (e, g')"
  shows "bootdone g'"
proof (cases k)
  case (Boottrace ev td)
  then show ?thesis using r b dotrace_at_flags [of c g _ ev td e g'] by (simp add: boottrace_def)
next
  case (Runtrace ev td)
  then show ?thesis using r by (auto simp: runtrace_def split: sum.splits)
next
  case (Shuttrace ev td)
  then show ?thesis
    using r b dotrace_at_flags [of c "g\<lparr>shutdown := True\<rparr>" ST ev td e g']
    by (simp add: shuttrace_def)
next
  case (Reset actor)
  then show ?thesis
    using r by (auto simp: boottrace_reset_def runtrace_def split: sum.splits)
next
  case (Resize avail n)
  then show ?thesis
    using r b
    by (auto simp: boottrace_resize_def Let_def boottrace_reset_def runtrace_def
        split: sum.splits if_splits)
qed

lemma resize_latch:
  assumes "boottrace_resize avail c g newsize = Inr (e, g')"
  shows "(e = 0 \<longrightarrow> bootdone g') \<and> (e \<noteq> 0 \<longrightarrow> bootdone g' = bootdone g)"
  using assms
  by (auto simp: boottrace_resize_def Let_def boottrace_reset_def runtrace_def
      EINVAL_def ENOMEM_def split: sum.splits if_splits)

text \<open>
  Claim C6, as the code has it. \<open>runtrace\<close> sets \<open>bootdone\<close> whenever it returns,
  whichever table the event went to and whether it was recorded or dropped, and so do the
  two paths that submit their event through it: \<open>boottrace_reset\<close>, and a
  \<open>boottrace_resize\<close> that succeeds (returns 0). A \<open>boottrace_resize\<close> that is
  refused (\<open>EINVAL\<close>, \<open>ENOMEM\<close>) submits nothing and leaves \<open>bootdone\<close> as it was;
  \<open>boottrace\<close> and \<open>shuttrace\<close> never change \<open>bootdone\<close>.
  \<open>boottrace\<close> selects the run table only when \<open>bootdone\<close> is already set, and with
  \<open>bootdone\<close> set \<open>runtrace\<close> does exactly what \<open>boottrace\<close> does. No call clears
  \<open>bootdone\<close>.
\<close>

theorem bootdone_latch:
  "(runtrace c g eventname tdname0 = Inr (e, g') \<longrightarrow> bootdone g')
   \<and> (boottrace_reset c g actor = Inr g' \<longrightarrow> bootdone g')
   \<and> (boottrace_resize avail c g newsize = Inr (0, g') \<longrightarrow> bootdone g')
   \<and> (boottrace_resize avail c g newsize = Inr (e, g') \<and> e \<noteq> 0 \<longrightarrow> bootdone g' = bootdone g)
   \<and> (boottrace c g eventname tdname0 = Inr (e, g') \<longrightarrow> bootdone g' = bootdone g)
   \<and> (shuttrace c g eventname tdname0 = Inr (e, g') \<longrightarrow> bootdone g' = bootdone g)
   \<and> (boottrace_trace c g = RT \<longrightarrow> bootdone g)
   \<and> (bootdone g \<longrightarrow> runtrace c g eventname tdname0 = boottrace c g eventname tdname0)
   \<and> (bootdone g \<and> do_call c g k = Inr (e, g') \<longrightarrow> bootdone g')"
proof -
  have a: "runtrace c g eventname tdname0 = Inr (e, g') \<longrightarrow> bootdone g'"
    by (auto simp: runtrace_def split: sum.splits)
  have b: "boottrace_reset c g actor = Inr g' \<longrightarrow> bootdone g'"
    by (auto simp: boottrace_reset_def runtrace_def split: sum.splits)
  have b1: "boottrace_resize avail c g newsize = Inr (0, g') \<longrightarrow> bootdone g'"
    using resize_latch [of avail c g newsize 0 g'] by simp
  have b2: "boottrace_resize avail c g newsize = Inr (e, g') \<and> e \<noteq> 0 \<longrightarrow> bootdone g' = bootdone g"
    using resize_latch [of avail c g newsize e g'] by simp
  have c: "boottrace c g eventname tdname0 = Inr (e, g') \<longrightarrow> bootdone g' = bootdone g"
    using dotrace_at_flags [of c g _ eventname tdname0 e g'] by (simp add: boottrace_def)
  have d: "shuttrace c g eventname tdname0 = Inr (e, g') \<longrightarrow> bootdone g' = bootdone g"
    using dotrace_at_flags [of c "g\<lparr>shutdown := True\<rparr>" ST eventname tdname0 e g']
    by (simp add: shuttrace_def)
  have e: "boottrace_trace c g = RT \<longrightarrow> bootdone g"
    by (simp add: boottrace_trace_eq split: if_splits)
  have f: "bootdone g \<longrightarrow> runtrace c g eventname tdname0 = boottrace c g eventname tdname0"
  proof
    assume bd: "bootdone g"
    show "runtrace c g eventname tdname0 = boottrace c g eventname tdname0"
    proof (cases "boottrace c g eventname tdname0")
      case (Inl x)
      then show ?thesis by (simp add: runtrace_def)
    next
      case (Inr p)
      obtain e1 g1 where p: "p = (e1, g1)" by (cases p)
      have "bootdone g1"
        using dotrace_at_flags [of c g _ eventname tdname0 e1 g1] Inr p bd
        by (simp add: boottrace_def)
      then have "g1\<lparr>bootdone := True\<rparr> = g1" by simp
      then show ?thesis using Inr p by (simp add: runtrace_def)
    qed
  qed
  have h: "bootdone g \<and> do_call c g k = Inr (e, g') \<longrightarrow> bootdone g'"
    using do_call_keeps_bootdone by blast
  from a b b1 b2 c d e f h show ?thesis by (intro conjI)
qed

lemma booted_first_runtrace:
  "runtrace (ctx_at 10) globals_booted ''up'' None =
     Inr (0, globals_booted\<lparr>bootdone := True,
               bt := (bt globals_booted)\<lparr>curr := 2,
                  table := Some ((replicate 3000 zero_event)
                     [0 := zero_event\<lparr> cpuid := 2, tdname := ''boottime'', name := ''initial event'' \<rparr>,
                      1 := event_of (ctx_at 10, ''up'', None)])\<rparr>\<rparr>)"
  apply (simp add: runtrace_def boottrace_def boottrace_trace_def dotrace_at_def booted_tables
      ctx_at_alive)
  apply (simp add: dotrace_def Let_def)
  apply (simp add: event_of_def)
  done

lemma unbooted_runtrace:
  "runtrace (ctx_at 10) globals_zero ''up'' None =
     Inr (ENOSPC, globals_zero\<lparr>bootdone := True,
               bt := (bt globals_zero)\<lparr>drops_early := 1\<rparr>\<rparr>)"
  by (simp add: runtrace_def boottrace_def boottrace_trace_def dotrace_at_def ctx_at_alive
      globals_zero_def dotrace_def Let_def)

lemma booted_resize:
  "boottrace_resize True (ctx_at 30) globals_booted 3000 =
     Inr (0, globals_booted\<lparr>bootdone := True,
               rt := \<lparr>size_bt = 3000, curr = 0, wrap = 1, drops_early = 0, drops_full = 0,
                      table = Some (replicate 2000 zero_event @ replicate 1000 zero_event)\<rparr>,
               bt := (bt globals_booted)\<lparr>curr := 2,
                  table := Some ((replicate 3000 zero_event)
                     [0 := zero_event\<lparr> cpuid := 2, tdname := ''boottime'', name := ''initial event'' \<rparr>,
                      1 := event_of (ctx_at 30, ''reset: boottrace_resize'', None)])\<rparr>\<rparr>)"
  apply (simp add: boottrace_resize_def booted_tables empty_bt_def realloc_def Let_def)
  apply (simp add: boottrace_reset_def runtrace_def boottrace_def boottrace_trace_def dotrace_at_def
      booted_tables ctx_at_alive)
  apply (simp add: dotrace_def Let_def empty_bt_def)
  apply (simp add: event_of_def)
  done

text \<open>
  Claim C6 as it is written fails for the first \<open>runtrace\<close> after initialisation: the
  event goes to the boot table, the run table is untouched, and \<open>bootdone\<close> is set.
  It fails as well before initialisation: the event is dropped with \<open>ENOSPC\<close> and
  \<open>bootdone\<close> is set.
\<close>

theorem bootdone_latch_counterexample:
  "\<not> bootdone globals_booted
   \<and> boottrace_trace (ctx_at 10) globals_booted = BT
   \<and> \<not> isl (runtrace (ctx_at 10) globals_booted ''up'' None)
   \<and> fst (projr (runtrace (ctx_at 10) globals_booted ''up'' None)) = 0
   \<and> bootdone (snd (projr (runtrace (ctx_at 10) globals_booted ''up'' None)))
   \<and> rt (snd (projr (runtrace (ctx_at 10) globals_booted ''up'' None))) = rt globals_booted
   \<and> \<not> bootdone globals_zero
   \<and> fst (projr (runtrace (ctx_at 10) globals_zero ''up'' None)) = ENOSPC
   \<and> bootdone (snd (projr (runtrace (ctx_at 10) globals_zero ''up'' None)))"
  unfolding booted_first_runtrace unbooted_runtrace
  by (simp add: boottrace_trace_def booted_tables ctx_at_alive globals_zero_def Let_def)

theorem bootdone_latch_witness:
  "boottrace_trace (ctx_at 10) globals_booted = BT
   \<and> runtrace (ctx_at 10) globals_booted ''up'' None =
       Inr (0, snd (projr (runtrace (ctx_at 10) globals_booted ''up'' None)))
   \<and> bootdone (snd (projr (runtrace (ctx_at 10) globals_booted ''up'' None)))
   \<and> boottrace_trace (ctx_at 20) (snd (projr (runtrace (ctx_at 10) globals_booted ''up'' None))) = RT
   \<and> \<not> bootdone globals_booted
   \<and> boottrace_resize True (ctx_at 30) globals_booted 3000 =
       Inr (0, snd (projr (boottrace_resize True (ctx_at 30) globals_booted 3000)))
   \<and> bootdone (snd (projr (boottrace_resize True (ctx_at 30) globals_booted 3000)))
   \<and> boottrace_resize True (ctx_at 30) globals_booted 2000 = Inr (EINVAL, globals_booted)
   \<and> bootdone (snd (projr (boottrace_resize True (ctx_at 30) globals_booted 2000)))
       = bootdone globals_booted"
proof -
  let ?g' = "snd (projr (runtrace (ctx_at 10) globals_booted ''up'' None))"
  let ?g2 = "snd (projr (boottrace_resize True (ctx_at 30) globals_booted 3000))"
  have r: "runtrace (ctx_at 10) globals_booted ''up'' None = Inr (0, ?g')"
    by (simp add: booted_first_runtrace)
  have b: "bootdone ?g'"
    using bootdone_latch [of "ctx_at 10" globals_booted "''up''" None 0 ?g'] r by blast
  have s: "\<not> shutdown ?g'" by (simp add: booted_first_runtrace booted_tables)
  have t: "boottrace_trace (ctx_at 20) ?g' = RT"
    using b s by (simp add: boottrace_trace_def ctx_at_alive)
  have u: "boottrace_trace (ctx_at 10) globals_booted = BT"
    by (simp add: boottrace_trace_def booted_tables ctx_at_alive)
  have r2: "boottrace_resize True (ctx_at 30) globals_booted 3000 = Inr (0, ?g2)"
    by (simp add: booted_resize)
  have b2: "bootdone ?g2"
    using bootdone_latch [where c = "ctx_at 30" and g = globals_booted and avail = True
        and newsize = 3000 and g' = ?g2] r2 by blast
  have r3: "boottrace_resize True (ctx_at 30) globals_booted 2000 = Inr (EINVAL, globals_booted)"
    by (simp add: boottrace_resize_def booted_tables empty_bt_def)
  have b3: "bootdone (snd (projr (boottrace_resize True (ctx_at 30) globals_booted 2000)))
       = bootdone globals_booted"
    using bootdone_latch [where c = "ctx_at 30" and g = globals_booted and avail = True
        and newsize = 2000 and e = EINVAL and g' = globals_booted] r3
    by (simp add: EINVAL_def)
  have nb: "\<not> bootdone globals_booted" by (simp add: booted_tables)
  from u r b t nb r2 b2 r3 b3 show ?thesis by (intro conjI)
qed

subsection \<open>The sysctl handlers\<close>

lemma sysctl_write_returns:
  assumes "newptr req" "handle_error req = 0"
  shows "sysctl_boottrace tsc_freq c g req =
           (case boottrace c g (fst (boottrace_parse_message (handle_message req) (p_comm c)))
                   (Some (snd (boottrace_parse_message (handle_message req) (p_comm c)))) of
              Inl f \<Rightarrow> Some (Inl f)
            | Inr (error, g') \<Rightarrow> Some (Inr (0, g', [])))"
    and "sysctl_runtrace c g req =
           (case runtrace c g (fst (boottrace_parse_message (handle_message req) (p_comm c)))
                   (Some (snd (boottrace_parse_message (handle_message req) (p_comm c)))) of
              Inl f \<Rightarrow> Inl f
            | Inr (error, g') \<Rightarrow> Inr (0, g'))"
    and "sysctl_shuttrace c g req =
           (case shuttrace c g (fst (boottrace_parse_message (handle_message req) (p_comm c)))
                   (Some (snd (boottrace_parse_message (handle_message req) (p_comm c)))) of
              Inl f \<Rightarrow> Inl f
            | Inr (error, g') \<Rightarrow> Inr (0, g'))"
proof -
  have bt: "e = 0 \<or> e = ENOSPC" if "boottrace c g ev td = Inr (e, g')" for ev td e g'
    using that dotrace_at_flags [of c g _ ev td e g'] by (simp add: boottrace_def)
  have rn: "e = 0 \<or> e = ENOSPC" if "runtrace c g ev td = Inr (e, g')" for ev td e g'
    using that bt by (auto simp: runtrace_def split: sum.splits)
  have sh: "e = 0 \<or> e = ENOSPC" if "shuttrace c g ev td = Inr (e, g')" for ev td e g'
    using that dotrace_at_flags [of c "g\<lparr>shutdown := True\<rparr>" ST ev td e g']
    by (simp add: shuttrace_def)
  show "sysctl_boottrace tsc_freq c g req =
           (case boottrace c g (fst (boottrace_parse_message (handle_message req) (p_comm c)))
                   (Some (snd (boottrace_parse_message (handle_message req) (p_comm c)))) of
              Inl f \<Rightarrow> Some (Inl f)
            | Inr (error, g') \<Rightarrow> Some (Inr (0, g', [])))"
    using assms
    by (auto simp: sysctl_boottrace_def ignore_full_def split: prod.splits sum.splits dest: bt)
  show "sysctl_runtrace c g req =
           (case runtrace c g (fst (boottrace_parse_message (handle_message req) (p_comm c)))
                   (Some (snd (boottrace_parse_message (handle_message req) (p_comm c)))) of
              Inl f \<Rightarrow> Inl f
            | Inr (error, g') \<Rightarrow> Inr (0, g'))"
    using assms
    by (auto simp: sysctl_runtrace_def ignore_full_def split: prod.splits sum.splits dest: rn)
  show "sysctl_shuttrace c g req =
           (case shuttrace c g (fst (boottrace_parse_message (handle_message req) (p_comm c)))
                   (Some (snd (boottrace_parse_message (handle_message req) (p_comm c)))) of
              Inl f \<Rightarrow> Inl f
            | Inr (error, g') \<Rightarrow> Inr (0, g'))"
    using assms
    by (auto simp: sysctl_shuttrace_def ignore_full_def split: prod.splits sum.splits dest: sh)
qed

text \<open>
  Claim C10. For a write request whose string \<open>sysctl_handle_string\<close> has read without
  error, each of \<open>sysctl_boottrace\<close>, \<open>sysctl_runtrace\<close> and \<open>sysctl_shuttrace\<close>
  returns 0 whenever the trace function it calls returns, whether that returned 0 or
  \<open>ENOSPC\<close>, and leaves the tables and flags as the trace function left them.
\<close>

theorem sysctl_ignores_full:
  "newptr req \<and> handle_error req = 0
   \<and> boottrace_parse_message (handle_message req) (p_comm c) = (eventname, tdname') \<longrightarrow>
     (boottrace c g eventname (Some tdname') = Inr (e, g') \<longrightarrow>
        sysctl_boottrace tsc_freq c g req = Some (Inr (0, g', [])))
   \<and> (runtrace c g eventname (Some tdname') = Inr (e, g') \<longrightarrow>
        sysctl_runtrace c g req = Inr (0, g'))
   \<and> (shuttrace c g eventname (Some tdname') = Inr (e, g') \<longrightarrow>
        sysctl_shuttrace c g req = Inr (0, g'))"
  by (auto simp: sysctl_write_returns)

theorem sysctl_ignores_full_witness:
  "shuttrace (ctx_at 10) (globals_booted\<lparr>st := (empty_bt 1000 0)\<lparr>curr := 999\<rparr>\<rparr>)
       ''halt'' (Some ''init'') =
     Inr (ENOSPC, globals_booted\<lparr>shutdown := True,
                     st := (empty_bt 1000 0)\<lparr>curr := 999, drops_full := 1\<rparr>\<rparr>)
   \<and> sysctl_shuttrace (ctx_at 10) (globals_booted\<lparr>st := (empty_bt 1000 0)\<lparr>curr := 999\<rparr>\<rparr>)
       \<lparr>newptr = True, handle_error = 0, handle_message = ''init:halt''\<rparr> =
     Inr (0, globals_booted\<lparr>shutdown := True,
                st := (empty_bt 1000 0)\<lparr>curr := 999, drops_full := 1\<rparr>\<rparr>)"
proof -
  let ?g = "globals_booted\<lparr>st := (empty_bt 1000 0)\<lparr>curr := 999\<rparr>\<rparr>"
  let ?g' = "globals_booted\<lparr>shutdown := True,
                st := (empty_bt 1000 0)\<lparr>curr := 999, drops_full := 1\<rparr>\<rparr>"
  let ?req = "\<lparr>newptr = True, handle_error = 0, handle_message = ''init:halt''\<rparr>"
  have p: "boottrace_parse_message (handle_message ?req) (p_comm (ctx_at 10)) = (''halt'', ''init'')"
    by (simp add: boottrace_parse_message_def)
  have s: "shuttrace (ctx_at 10) ?g ''halt'' (Some ''init'') = Inr (ENOSPC, ?g')"
    by (simp add: shuttrace_def dotrace_at_def dotrace_def empty_bt_def Let_def)
  have "sysctl_shuttrace (ctx_at 10) ?g ?req = Inr (0, ?g')"
    using sysctl_ignores_full [of ?req "ctx_at 10" "''halt''" "''init''" ?g ENOSPC ?g' 1000] p s
    by simp
  with s show ?thesis by simp
qed

subsection \<open>Resizing the run table\<close>

lemma booted_second_runtrace:
  "runtrace (ctx_at 20)
     (globals_booted\<lparr>bootdone := True,
               bt := (bt globals_booted)\<lparr>curr := 2,
                  table := Some ((replicate 3000 zero_event)
                     [0 := zero_event\<lparr> cpuid := 2, tdname := ''boottime'', name := ''initial event'' \<rparr>,
                      1 := event_of (ctx_at 10, ''up'', None)])\<rparr>\<rparr>) ''ready'' None =
     Inr (0, globals_booted\<lparr>bootdone := True,
               bt := (bt globals_booted)\<lparr>curr := 2,
                  table := Some ((replicate 3000 zero_event)
                     [0 := zero_event\<lparr> cpuid := 2, tdname := ''boottime'', name := ''initial event'' \<rparr>,
                      1 := event_of (ctx_at 10, ''up'', None)])\<rparr>,
               rt := (empty_bt 2000 1)\<lparr>curr := 1,
                  table := Some ((replicate 2000 zero_event)
                     [0 := event_of (ctx_at 20, ''ready'', None)])\<rparr>\<rparr>)"
  apply (simp add: runtrace_def boottrace_def boottrace_trace_def dotrace_at_def booted_tables
      ctx_at_alive)
  apply (simp add: dotrace_def Let_def empty_bt_def)
  apply (simp add: event_of_def)
  done

lemma running_run:
  "run_calls [(ctx_at 10, Runtrace ''up'' None), (ctx_at 20, Runtrace ''ready'' None)]
       globals_booted = Inr ([0, 0], globals_running)"
  by (simp only: run_calls.simps do_call.simps booted_first_runtrace booted_second_runtrace
      sum.case prod.case globals_running_def)

lemma resize_step:
  "boottrace_resize True (ctx_at 30) globals_running 3000 = Inr (0, globals_running\<lparr>
               rt := \<lparr>size_bt = 3000, curr = 2, wrap = 1, drops_early = 0, drops_full = 0,
                  table = Some (((replicate 2000 zero_event)
                     [0 := event_of (ctx_at 20, ''ready'', None)] @ replicate 1000 zero_event)
                     [1 := event_of (ctx_at 30, ''reset: boottrace_resize'', None)])\<rparr>\<rparr>)"
  apply (simp add: boottrace_resize_def globals_running_def booted_tables empty_bt_def realloc_def Let_def)
  apply (simp add: boottrace_reset_def runtrace_def boottrace_def boottrace_trace_def dotrace_at_def booted_tables
      ctx_at_alive)
  apply (simp add: dotrace_def Let_def empty_bt_def)
  apply (simp add: event_of_def)
  done

lemma resize_not_larger:
  assumes "newsize \<le> size_bt (rt g)"
  shows "boottrace_resize avail c g newsize = Inr (EINVAL, g)"
  using assms by (simp add: boottrace_resize_def)

lemma resize_no_memory:
  "boottrace_resize False (ctx_at 30) globals_running 3000 =
     Inr (ENOMEM, globals_running\<lparr>rt := (rt globals_running)\<lparr>table := None\<rparr>\<rparr>)"
  by (simp add: boottrace_resize_def globals_running_def booted_tables empty_bt_def realloc_def
      Let_def)

text \<open>
  Claim C3 at the tables that initialisation and two calls of \<open>runtrace\<close> leave: the
  run table has size 2000 and cursor 1. \<open>boottrace_resize(3000)\<close> returns 0 and sets the
  size to 3000, but it does not touch the cursor: the reset event is stored in slot 1,
  after the event that was there before, and the cursor ends at 2. When the allocator
  gives nothing, \<open>ENOMEM\<close> is returned after \<open>rt.table\<close> has been overwritten with
  \<open>NULL\<close>.
\<close>

theorem resize_keeps_cursor:
  "run_calls [(ctx_at 10, Runtrace ''up'' None), (ctx_at 20, Runtrace ''ready'' None)]
       globals_booted = Inr ([0, 0], globals_running)
   \<and> size_bt (rt globals_running) = 2000 \<and> curr (rt globals_running) = 1
   \<and> boottrace_resize True (ctx_at 30) globals_running 3000 =
       Inr (0, globals_running\<lparr>
               rt := \<lparr>size_bt = 3000, curr = 2, wrap = 1, drops_early = 0, drops_full = 0,
                  table = Some (((replicate 2000 zero_event)
                     [0 := event_of (ctx_at 20, ''ready'', None)] @ replicate 1000 zero_event)
                     [1 := event_of (ctx_at 30, ''reset: boottrace_resize'', None)])\<rparr>\<rparr>)
   \<and> boottrace_resize False (ctx_at 30) globals_running 3000 =
       Inr (ENOMEM, globals_running\<lparr>rt := (rt globals_running)\<lparr>table := None\<rparr>\<rparr>)"
proof -
  have "size_bt (rt globals_running) = 2000" "curr (rt globals_running) = 1"
    by (simp_all add: globals_running_def empty_bt_def)
  then show ?thesis
    using running_run resize_step resize_no_memory by (intro conjI)
qed

subsection \<open>Concurrent callers of dotrace\<close>

lemma conc_inv_init:
  assumes "wf_bt btp"
  shows "conc_inv btp (map length reqss) (conc_init btp reqss)"
  using assms
  by (auto simp: conc_inv_def conc_init_def wf_bt_def thread_inv_def progress_def
      word_less_nat_alt o_def split: option.splits)

lemma sum_list_progress_update:
  assumes "i < length ts"
  shows "sum_list (map progress (ts[i := t])) + progress (ts ! i) =
         sum_list (map progress ts) + progress t"
proof -
  have "sum_list ((map progress ts)[i := progress t]) =
        sum_list (map progress ts) + progress t - (map progress ts) ! i"
    using assms by (simp add: sum_list_update)
  moreover have "(map progress ts) ! i \<le> sum_list (map progress ts)"
    using assms by (simp add: member_le_sum_list)
  ultimately show ?thesis using assms by (simp add: map_update)
qed

lemma thread_inv_other:
  assumes "thread_inv b0 s k j" "threads s' ! j = threads s ! j"
    "set (claims s) \<subseteq> set (claims s')"
  shows "thread_inv b0 s' k j"
  using assms by (auto simp: thread_inv_def Let_def split: pc.splits)

lemma conc_inv_update:
  assumes inv: "conc_inv b0 ks s" and i: "i < length ks"
    and th: "threads s' = (threads s)[i := t']"
    and cl: "set (claims s) \<subseteq> set (claims s')"
    and sz: "size_bt (shared s') = size_bt b0" "wrap (shared s') = wrap b0"
    and tb: "table (shared s') = Some tbl'" "length tbl' = unat (size_bt b0)"
    and cur: "unat (curr (shared s')) =
        (unat (curr b0) + length (claims s')) mod unat (size_bt b0)"
    and idx: "map (unat \<circ> snd) (claims s') =
        map (\<lambda>n. (unat (curr b0) + n) mod unat (size_bt b0)) [0..<length (claims s')]"
    and pr: "length (claims s') + progress (threads s ! i) = length (claims s) + progress t'"
    and me: "thread_inv b0 s' (ks ! i) i"
  shows "conc_inv b0 ks s'"
proof -
  have len: "length (threads s) = length ks" and nz: "size_bt b0 \<noteq> 0"
    and sum: "length (claims s) = sum_list (map progress (threads s))"
    and all: "\<forall>j < length ks. thread_inv b0 s (ks ! j) j"
    using inv by (simp_all add: conc_inv_def)
  have "sum_list (map progress (threads s')) + progress (threads s ! i) =
        sum_list (map progress (threads s)) + progress t'"
    using sum_list_progress_update [of i "threads s" t'] i len th by simp
  then have sum': "length (claims s') = sum_list (map progress (threads s'))"
    using pr sum by simp
  have "thread_inv b0 s' (ks ! j) j" if j: "j < length ks" for j
  proof (cases "j = i")
    case True
    then show ?thesis using me by simp
  next
    case False
    then have "threads s' ! j = threads s ! j" using th by simp
    then show ?thesis using thread_inv_other all j cl by blast
  qed
  then show ?thesis
    using nz sz tb cur idx sum' len th by (simp add: conc_inv_def)
qed

lemma conc_inv_step:
  assumes inv: "conc_inv b0 ks s" and wr: "wrap b0 \<noteq> 0"
  shows "\<exists>s'. thread_step i s = Inr s' \<and> conc_inv b0 ks s'"
proof (cases "i < length (threads s)")
  case False
  then show ?thesis using inv by (simp add: thread_step_def)
next
  case True
  let ?t = "threads s ! i" and ?b = "shared s"
  let ?C = "unat (size_bt b0)" and ?c0 = "unat (curr b0)"
  obtain tbl where nz: "size_bt b0 \<noteq> 0"
    and sz: "size_bt ?b = size_bt b0" "wrap ?b = wrap b0"
    and tb: "table ?b = Some tbl" "length tbl = ?C"
    and cur: "unat (curr ?b) = (?c0 + length (claims s)) mod ?C"
    and idx: "map (unat \<circ> snd) (claims s) =
        map (\<lambda>n. (?c0 + n) mod ?C) [0..<length (claims s)]"
    and len: "length (threads s) = length ks"
    and all: "\<forall>j < length ks. thread_inv b0 s (ks ! j) j"
    using inv by (auto simp: conc_inv_def split: option.splits)
  have i: "i < length ks" using True len by simp
  have me: "thread_inv b0 s (ks ! i) i" using all i by simp
  have Cpos: "0 < ?C" using nz by (simp add: unat_gt_0)
  have clt: "curr ?b < size_bt b0"
    using cur Cpos by (simp add: word_less_nat_alt)
  show ?thesis
  proof (cases "todo ?t")
    case Nil
    then show ?thesis using inv True by (simp add: thread_step_def Let_def)
  next
    case (Cons r rs)
    show ?thesis
    proof (cases "pc ?t")
      case Start
      let ?t' = "?t\<lparr>pc := Loop\<rparr>"
      let ?s' = "s\<lparr>threads := (threads s)[i := ?t']\<rparr>"
      have st: "thread_step i s = Inr ?s'"
        using True Cons Start tb by (simp add: thread_step_def Let_def)
      have "thread_inv b0 ?s' (ks ! i) i"
        using me True Cons by (simp add: thread_inv_def Let_def)
      moreover have "progress ?t' = progress ?t" using Start by (simp add: progress_def)
      ultimately have "conc_inv b0 ks ?s'"
        using sz tb cur idx
        by (intro conc_inv_update [OF inv i, where t' = ?t' and tbl' = tbl]) simp_all
      with st show ?thesis by blast
    next
      case Loop
      let ?nxt = "(curr ?b + 1) mod size_bt ?b"
      let ?t' = "?t\<lparr>pc := Cas (curr ?b) ?nxt\<rparr>"
      let ?s' = "s\<lparr>threads := (threads s)[i := ?t']\<rparr>"
      have st: "thread_step i s = Inr ?s'"
        using True Cons Loop nz sz wr by (simp add: thread_step_def Let_def)
      have "thread_inv b0 ?s' (ks ! i) i"
        using me True Cons sz by (simp add: thread_inv_def Let_def)
      moreover have "progress ?t' = progress ?t" using Loop by (simp add: progress_def)
      ultimately have "conc_inv b0 ks ?s'"
        using sz tb cur idx
        by (intro conc_inv_update [OF inv i, where t' = ?t' and tbl' = tbl]) simp_all
      with st show ?thesis by blast
    next
      case (Cas ix nxt)
      have nx: "nxt = (ix + 1) mod size_bt b0"
        using me Cas by (simp add: thread_inv_def Let_def)
      show ?thesis
      proof (cases "curr ?b = ix")
        case False
        let ?t' = "?t\<lparr>pc := Loop\<rparr>"
        let ?s' = "s\<lparr>threads := (threads s)[i := ?t']\<rparr>"
        have st: "thread_step i s = Inr ?s'"
          using True Cons Cas False by (simp add: thread_step_def Let_def)
        have "thread_inv b0 ?s' (ks ! i) i"
          using me True Cons by (simp add: thread_inv_def Let_def)
        moreover have "progress ?t' = progress ?t" using Cas by (simp add: progress_def)
        ultimately have "conc_inv b0 ks ?s'"
          using sz tb cur idx
          by (intro conc_inv_update [OF inv i, where t' = ?t' and tbl' = tbl]) simp_all
        with st show ?thesis by blast
      next
        case same: True
        let ?t' = "?t\<lparr>pc := Fill ix\<rparr>"
        let ?s' = "s\<lparr>shared := ?b\<lparr>curr := nxt\<rparr>, threads := (threads s)[i := ?t'],
                     claims := claims s @ [(i, ix)]\<rparr>"
        have st: "thread_step i s = Inr ?s'"
          using True Cons Cas same by (simp add: thread_step_def Let_def)
        have ixlt: "ix < size_bt b0" using clt same by simp
        have uix: "unat ix = (?c0 + length (claims s)) mod ?C" using cur same by simp
        have "unat nxt = (unat ix + 1) mod ?C"
          using unat_next_slot [OF ixlt] nx by simp
        then have cur': "unat nxt = (?c0 + length (claims s @ [(i, ix)])) mod ?C"
          using uix by (simp add: mod_Suc_eq)
        have idx': "map (unat \<circ> snd) (claims s @ [(i, ix)]) =
            map (\<lambda>n. (?c0 + n) mod ?C) [0..<length (claims s @ [(i, ix)])]"
          using idx uix by simp
        have "thread_inv b0 ?s' (ks ! i) i"
          using me True Cons uix Cpos by (simp add: thread_inv_def Let_def)
        moreover have "progress ?t' = progress ?t + 1" using Cas by (simp add: progress_def)
        ultimately have "conc_inv b0 ks ?s'"
          using sz tb cur' idx'
          by (intro conc_inv_update [OF inv i, where t' = ?t' and tbl' = tbl]) auto
        with st show ?thesis by blast
      qed
    next
      case (Fill ix)
      have ixlt: "unat ix < ?C" using me Fill by (simp add: thread_inv_def Let_def)
      let ?t' = "?t\<lparr>pc := Start, todo := rs, rets := rets ?t @ [0]\<rparr>"
      let ?s' = "s\<lparr>shared := ?b\<lparr>table := Some (tbl[unat ix := event_of r])\<rparr>,
                   threads := (threads s)[i := ?t']\<rparr>"
      have st: "thread_step i s = Inr ?s'"
        using True Cons Fill tb ixlt by (simp add: thread_step_def Let_def)
      have "thread_inv b0 ?s' (ks ! i) i"
        using me True Cons by (auto simp: thread_inv_def Let_def)
      moreover have "progress ?t' = progress ?t" using Fill by (simp add: progress_def)
      ultimately have "conc_inv b0 ks ?s'"
        using sz tb cur idx
        by (intro conc_inv_update [OF inv i, where t' = ?t'
              and tbl' = "tbl[unat ix := event_of r]"]) simp_all
      with st show ?thesis by blast
    qed
  qed
qed

lemma conc_inv_run:
  assumes "conc_inv b0 ks s" "wrap b0 \<noteq> 0"
  shows "\<exists>s'. run sched s = Inr s' \<and> conc_inv b0 ks s'"
  using assms(1)
proof (induction sched arbitrary: s)
  case Nil
  then show ?case by simp
next
  case (Cons i sched)
  from conc_inv_step [OF Cons.prems assms(2), of i]
  obtain s1 where "thread_step i s = Inr s1" "conc_inv b0 ks s1" by blast
  then show ?case using Cons.IH [of s1] by simp
qed

lemma ring_slots_distinct:
  assumes "L \<le> (C::nat)"
  shows "distinct (map (\<lambda>n. (c + n) mod C) [0..<L])"
proof -
  have "inj_on (\<lambda>n. (c + n) mod C) {0..<L}"
  proof (rule inj_onI)
    fix n m assume n: "n \<in> {0..<L}" and m: "m \<in> {0..<L}"
      and eq: "(c + n) mod C = (c + m) mod C"
    have aux: "a = b" if "a \<le> b" "b < C" "(c + a) mod C = (c + b) mod C" for a b
    proof -
      have "(c + b) mod C = (c + a) mod C" using that by simp
      moreover have "c + a \<le> c + b" using that by simp
      ultimately have "C dvd (c + b) - (c + a)"
        by (simp only: mod_eq_dvd_iff_nat)
      then have "C dvd b - a" by simp
      moreover have "b - a < C" using that by simp
      ultimately have "b - a = 0" by (meson dvd_imp_le not_less zero_less_iff_neq_zero)
      then show ?thesis using that by simp
    qed
    show "n = m"
    proof (cases "n \<le> m")
      case True
      then show ?thesis using aux [of n m] m eq assms by simp
    next
      case False
      then show ?thesis using aux [of m n] n eq assms by simp
    qed
  qed
  then show ?thesis by (simp add: distinct_map)
qed

lemma progress_bound:
  assumes "thread_inv b0 s k i"
  shows "progress (threads s ! i) \<le> k"
  using assms
  by (cases "todo (threads s ! i)")
     (auto simp: thread_inv_def progress_def Let_def split: pc.splits)

lemma claims_bound:
  assumes inv: "conc_inv b0 ks s"
  shows "length (claims s) \<le> sum_list ks"
proof -
  have len: "length (threads s) = length ks"
    and sum: "length (claims s) = sum_list (map progress (threads s))"
    and all: "\<forall>j < length ks. thread_inv b0 s (ks ! j) j"
    using inv by (simp_all add: conc_inv_def)
  have "sum_list (map progress (threads s)) \<le> sum_list ks"
    using len all progress_bound by (intro sum_list_mono2) auto
  then show ?thesis using sum by simp
qed

lemma owners_distinct:
  assumes inv: "conc_inv b0 ks s" and fit: "sum_list ks \<le> unat (size_bt b0)"
    and ij: "i \<noteq> j" and oi: "owns s i = Some x"
  shows "owns s j \<noteq> Some x"
proof
  assume oj: "owns s j = Some x"
  have len: "length (threads s) = length ks"
    and idx: "map (unat \<circ> snd) (claims s) =
        map (\<lambda>n. (unat (curr b0) + n) mod unat (size_bt b0)) [0..<length (claims s)]"
    and all: "\<forall>j < length ks. thread_inv b0 s (ks ! j) j"
    using inv by (simp_all add: conc_inv_def)
  have i: "i < length ks" "pc (threads s ! i) = Fill x"
    using oi len by (auto simp: owns_def split: if_splits pc.splits)
  have j: "j < length ks" "pc (threads s ! j) = Fill x"
    using oj len by (auto simp: owns_def split: if_splits pc.splits)
  have ci: "(i, x) \<in> set (claims s)" using all i by (auto simp: thread_inv_def Let_def)
  have cj: "(j, x) \<in> set (claims s)" using all j by (auto simp: thread_inv_def Let_def)
  have "length (claims s) \<le> unat (size_bt b0)" using claims_bound [OF inv] fit by simp
  then have "distinct (map (unat \<circ> snd) (claims s))"
    using idx ring_slots_distinct by simp
  then have "inj_on (unat \<circ> snd) (set (claims s))" by (simp add: distinct_map)
  moreover have "(unat \<circ> snd) (i, x) = (unat \<circ> snd) (j, x)" by simp
  ultimately have "(i, x) = (j, x)" using ci cj by (rule inj_onD)
  then show False using ij by simp
qed

lemma finished_total:
  assumes inv: "conc_inv b0 ks s" and d: "all_done s"
  shows "sum_list (map (\<lambda>t. length (rets t)) (threads s)) = sum_list ks"
proof -
  have len: "length (threads s) = length ks"
    and all: "\<forall>j < length ks. thread_inv b0 s (ks ! j) j"
    using inv by (simp_all add: conc_inv_def)
  have "map (\<lambda>t. length (rets t)) (threads s) = ks"
  proof (rule nth_equalityI)
    show "length (map (\<lambda>t. length (rets t)) (threads s)) = length ks" using len by simp
  next
    fix i assume "i < length (map (\<lambda>t. length (rets t)) (threads s))"
    then have i: "i < length ks" using len by simp
    then have "todo (threads s ! i) = []"
      using d len by (simp add: all_done_def list_all_length)
    moreover have "thread_inv b0 s (ks ! i) i" using all i by simp
    ultimately show "map (\<lambda>t. length (rets t)) (threads s) ! i = ks ! i"
      using i len by (simp add: thread_inv_def Let_def)
  qed
  then show ?thesis by simp
qed

lemma run_append:
  "run (a @ b) s = (case run a s of Inl f \<Rightarrow> Inl f | Inr s' \<Rightarrow> run b s')"
  by (induction a arbitrary: s) (auto split: sum.splits)

lemma solo_call:
  assumes inv: "conc_inv b0 ks s" and wr: "wrap b0 \<noteq> 0" and i: "i < length ks"
    and st: "pc (threads s ! i) = Start"
  shows "\<exists>s'. run [i, i, i, i] s = Inr s' \<and> conc_inv b0 ks s'
           \<and> pc (threads s' ! i) = Start
           \<and> todo (threads s' ! i) = tl (todo (threads s ! i))
           \<and> (\<forall>j. j \<noteq> i \<longrightarrow> threads s' ! j = threads s ! j)"
proof -
  let ?t = "threads s ! i" and ?b = "shared s"
  obtain tbl where nz: "size_bt b0 \<noteq> 0"
    and sz: "size_bt ?b = size_bt b0" "wrap ?b = wrap b0"
    and tb: "table ?b = Some tbl" "length tbl = unat (size_bt b0)"
    and cur: "unat (curr ?b) =
        (unat (curr b0) + length (claims s)) mod unat (size_bt b0)"
    and len: "length (threads s) = length ks"
    using inv by (auto simp: conc_inv_def split: option.splits)
  have il: "i < length (threads s)" using i len by simp
  have "0 < unat (size_bt b0)" using nz by (simp add: unat_gt_0)
  then have clt: "unat (curr ?b) < length tbl" using cur tb by simp
  from conc_inv_run [OF inv wr, of "[i, i, i, i]"]
  obtain s' where r: "run [i, i, i, i] s = Inr s'" and inv': "conc_inv b0 ks s'" by blast
  show ?thesis
  proof (cases "todo ?t")
    case Nil
    then have "run [i, i, i, i] s = Inr s" using il by (simp add: thread_step_def Let_def)
    then show ?thesis using inv st Nil by simp
  next
    case (Cons rq rs)
    have "run [i, i, i, i] s =
        Inr (s\<lparr>shared := ?b\<lparr>curr := (curr ?b + 1) mod size_bt ?b,
                             table := Some (tbl[unat (curr ?b) := event_of rq])\<rparr>,
               threads := (threads s)[i := ?t\<lparr>pc := Start, todo := rs,
                                             rets := rets ?t @ [0]\<rparr>],
               claims := claims s @ [(i, curr ?b)]\<rparr>)"
      using il Cons st tb nz sz wr clt by (simp add: thread_step_def Let_def)
    with r have "s' = s\<lparr>shared := ?b\<lparr>curr := (curr ?b + 1) mod size_bt ?b,
                             table := Some (tbl[unat (curr ?b) := event_of rq])\<rparr>,
               threads := (threads s)[i := ?t\<lparr>pc := Start, todo := rs,
                                             rets := rets ?t @ [0]\<rparr>],
               claims := claims s @ [(i, curr ?b)]\<rparr>" by simp
    then have "pc (threads s' ! i) = Start" "todo (threads s' ! i) = tl (todo ?t)"
      "\<forall>j. j \<noteq> i \<longrightarrow> threads s' ! j = threads s ! j"
      using il Cons by simp_all
    with r inv' show ?thesis by blast
  qed
qed

lemma solo_thread:
  assumes wr: "wrap b0 \<noteq> 0" and i: "i < length ks"
  shows "conc_inv b0 ks s \<Longrightarrow> pc (threads s ! i) = Start \<Longrightarrow>
         \<exists>s'. run (concat (replicate n [i, i, i, i])) s = Inr s' \<and> conc_inv b0 ks s'
           \<and> pc (threads s' ! i) = Start
           \<and> todo (threads s' ! i) = drop n (todo (threads s ! i))
           \<and> (\<forall>j. j \<noteq> i \<longrightarrow> threads s' ! j = threads s ! j)"
proof (induction n arbitrary: s)
  case 0
  then show ?case by simp
next
  case (Suc n)
  from solo_call [OF Suc.prems(1) wr i Suc.prems(2)]
  obtain s1 where r1: "run [i, i, i, i] s = Inr s1" and inv1: "conc_inv b0 ks s1"
    and pc1: "pc (threads s1 ! i) = Start"
    and td1: "todo (threads s1 ! i) = tl (todo (threads s ! i))"
    and o1: "\<forall>j. j \<noteq> i \<longrightarrow> threads s1 ! j = threads s ! j"
    by blast
  from Suc.IH [OF inv1 pc1]
  obtain s' where r: "run (concat (replicate n [i, i, i, i])) s1 = Inr s'"
    and inv': "conc_inv b0 ks s'" and pc': "pc (threads s' ! i) = Start"
    and td': "todo (threads s' ! i) = drop n (todo (threads s1 ! i))"
    and o': "\<forall>j. j \<noteq> i \<longrightarrow> threads s' ! j = threads s1 ! j"
    by blast
  have "run (concat (replicate (Suc n) [i, i, i, i])) s = Inr s'"
    using r1 r run_append [of "[i, i, i, i]" "concat (replicate n [i, i, i, i])" s]
    by simp
  moreover have "todo (threads s' ! i) = drop (Suc n) (todo (threads s ! i))"
    using td' td1 by (simp add: drop_Suc)
  moreover have "\<forall>j. j \<noteq> i \<longrightarrow> threads s' ! j = threads s ! j" using o' o1 by simp
  ultimately show ?case using inv' pc' by blast
qed

lemma sequential_finish:
  assumes inv: "conc_inv b0 ks s" and wr: "wrap b0 \<noteq> 0"
    and fresh: "\<forall>j < length ks. pc (threads s ! j) = Start"
    and K: "\<forall>j < length ks. length (todo (threads s ! j)) \<le> K"
  shows "m \<le> length ks \<Longrightarrow>
         \<exists>s'. run (concat (map (\<lambda>i. concat (replicate K [i, i, i, i])) [0..<m])) s = Inr s'
           \<and> conc_inv b0 ks s'
           \<and> (\<forall>j < m. todo (threads s' ! j) = [])
           \<and> (\<forall>j. m \<le> j \<longrightarrow> threads s' ! j = threads s ! j)"
proof (induction m)
  case 0
  then show ?case using inv by simp
next
  case (Suc m)
  then have m: "m < length ks" by simp
  from Suc.IH m
  obtain s1 where
    r1: "run (concat (map (\<lambda>i. concat (replicate K [i, i, i, i])) [0..<m])) s = Inr s1"
    and inv1: "conc_inv b0 ks s1"
    and d1: "\<forall>j < m. todo (threads s1 ! j) = []"
    and o1: "\<forall>j. m \<le> j \<longrightarrow> threads s1 ! j = threads s ! j"
    by auto
  have pcm: "pc (threads s1 ! m) = Start" using o1 fresh m by simp
  from solo_thread [OF wr m inv1 pcm, of K]
  obtain s' where r: "run (concat (replicate K [m, m, m, m])) s1 = Inr s'"
    and inv': "conc_inv b0 ks s'"
    and td': "todo (threads s' ! m) = drop K (todo (threads s1 ! m))"
    and o': "\<forall>j. j \<noteq> m \<longrightarrow> threads s' ! j = threads s1 ! j"
    by blast
  have "run (concat (map (\<lambda>i. concat (replicate K [i, i, i, i])) [0..<Suc m])) s = Inr s'"
    using r1 r
      run_append [of "concat (map (\<lambda>i. concat (replicate K [i, i, i, i])) [0..<m])"
        "concat (replicate K [m, m, m, m])" s]
    by simp
  moreover have "todo (threads s' ! m) = []" using td' o1 K m by simp
  then have "\<forall>j < Suc m. todo (threads s' ! j) = []"
    using d1 o' by (auto simp: less_Suc_eq)
  moreover have "\<forall>j. Suc m \<le> j \<longrightarrow> threads s' ! j = threads s ! j"
    using o' o1 by simp
  ultimately show ?case using inv' by blast
qed

lemma some_schedule_finishes:
  assumes wf: "wf_bt btp" and wr: "wrap btp \<noteq> 0"
    and K: "\<forall>rs \<in> set reqss. length rs = K"
  shows "\<exists>sched s. run sched (conc_init btp reqss) = Inr s \<and> all_done s"
proof -
  let ?ks = "map length reqss" and ?s0 = "conc_init btp reqss"
  have inv: "conc_inv btp ?ks ?s0" using conc_inv_init [OF wf] .
  have fresh: "\<forall>j < length ?ks. pc (threads ?s0 ! j) = Start"
    by (simp add: conc_init_def)
  have Kb: "\<forall>j < length ?ks. length (todo (threads ?s0 ! j)) \<le> K"
    using K by (simp add: conc_init_def)
  from sequential_finish [OF inv wr fresh Kb, of "length ?ks"]
  obtain s' where
    r: "run (concat (map (\<lambda>i. concat (replicate K [i, i, i, i])) [0..<length ?ks])) ?s0 = Inr s'"
    and inv': "conc_inv btp ?ks s'"
    and d: "\<forall>j < length ?ks. todo (threads s' ! j) = []"
    by auto
  have "length (threads s') = length ?ks" using inv' by (simp add: conc_inv_def)
  then have "all_done s'" using d by (simp add: all_done_def list_all_length)
  with r show ?thesis by blast
qed

lemma sum_list_same:
  assumes "\<forall>x \<in> set xs. f x = (k::nat)"
  shows "sum_list (map f xs) = length xs * k"
  using assms by (induction xs) auto

lemma claims_window:
  assumes inv: "conc_inv b0 ks s"
    and pq: "p < q" "q < length (claims s)" "q - p < unat (size_bt b0)"
  shows "snd (claims s ! p) \<noteq> snd (claims s ! q)"
proof
  assume eq: "snd (claims s ! p) = snd (claims s ! q)"
  let ?C = "unat (size_bt b0)" and ?c0 = "unat (curr b0)"
  have idx: "map (unat \<circ> snd) (claims s) =
        map (\<lambda>n. (?c0 + n) mod ?C) [0..<length (claims s)]"
    using inv by (simp add: conc_inv_def)
  have at: "unat (snd (claims s ! n)) = (?c0 + n) mod ?C" if "n < length (claims s)" for n
    using arg_cong [OF idx, of "\<lambda>xs. xs ! n"] that by simp
  have "(?c0 + q) mod ?C = (?c0 + p) mod ?C"
    using at [of p] at [of q] pq eq by simp
  moreover have "?c0 + p \<le> ?c0 + q" using pq by simp
  ultimately have "?C dvd (?c0 + q) - (?c0 + p)" by (simp only: mod_eq_dvd_iff_nat)
  then have "?C dvd q - p" by simp
  moreover have "0 < q - p" using pq by simp
  ultimately have "?C \<le> q - p" by (simp add: dvd_imp_le)
  then show False using pq by simp
qed

lemma sum_list_le_slack:
  fixes f g :: "'a \<Rightarrow> nat"
  assumes "\<forall>x. g x \<le> f x + d"
  shows "sum_list (map g xs) \<le> sum_list (map f xs) + d * length xs"
proof (induction xs)
  case Nil
  then show ?case by simp
next
  case (Cons x xs)
  have "g x \<le> f x + d" using assms by simp
  then show ?case using Cons by simp
qed

lemma sum_list_update_less:
  fixes f g :: "'a \<Rightarrow> nat"
  assumes i: "i < length ts"
    and others: "\<forall>x. g x \<le> f x + d"
    and own: "g t' + d * (length ts - 1) < f (ts ! i)"
  shows "sum_list (map g (ts[i := t'])) < sum_list (map f ts)"
proof -
  let ?a = "take i ts" and ?b = "drop (Suc i) ts"
  have ts: "ts = ?a @ ts ! i # ?b" using i by (simp add: id_take_nth_drop)
  have up: "ts[i := t'] = ?a @ t' # ?b" using i by (simp add: upd_conv_take_nth_drop)
  have la: "length ?a = i" using i by simp
  have lb: "length ?b = length ts - 1 - i" by simp
  have a: "sum_list (map g ?a) \<le> sum_list (map f ?a) + d * i"
    using sum_list_le_slack [OF others, of ?a] la by simp
  have b: "sum_list (map g ?b) \<le> sum_list (map f ?b) + d * (length ts - 1 - i)"
    using sum_list_le_slack [OF others, of ?b] lb by simp
  have "i + (length ts - 1 - i) = length ts - 1" using i by simp
  then have "d * i + d * (length ts - 1 - i) = d * (length ts - 1)"
    by (simp flip: distrib_left)
  then have c: "sum_list (map g ?a) + sum_list (map g ?b) \<le>
      sum_list (map f ?a) + sum_list (map f ?b) + d * (length ts - 1)"
    using a b by linarith
  have l: "sum_list (map g (ts[i := t'])) = sum_list (map g ?a) + g t' + sum_list (map g ?b)"
    by (subst up) simp
  have r: "sum_list (map f ts) = sum_list (map f ?a) + f (ts ! i) + sum_list (map f ?b)"
    by (subst ts) simp
  show ?thesis using l r c own by linarith
qed

lemma weight_cursor: "weight T c' t \<le> weight T c t + 2"
  by (simp add: weight_def split: list.splits pc.splits)

lemma weight_same: "\<forall>x. weight T c x \<le> weight T c x + 0"
  by simp

lemma potential_step:
  assumes st: "thread_step i s = Inr s'" and i: "i < length (threads s)"
    and td: "todo (threads s ! i) \<noteq> []"
  shows "potential s' < potential s"
proof -
  let ?t = "threads s ! i" and ?b = "shared s" and ?T = "length (threads s)"
  obtain r rs where tdc: "todo ?t = r # rs" using td by (cases "todo ?t") auto
  have T: "1 \<le> ?T" using i by simp
  show ?thesis
  proof (cases "pc ?t")
    case Start
    show ?thesis
    proof (cases "table ?b")
      case None
      let ?t' = "?t\<lparr>todo := rs, rets := rets ?t @ [ENOSPC]\<rparr>"
      have s': "s' = s\<lparr>shared := ?b\<lparr>drops_early := drops_early ?b + 1\<rparr>,
                       threads := (threads s)[i := ?t']\<rparr>"
        using st i tdc Start None by (simp add: thread_step_def Let_def)
      have "weight ?T (curr ?b) ?t' + 0 * (?T - 1) < weight ?T (curr ?b) ?t"
        using tdc Start by (simp add: weight_def split: list.splits)
      from sum_list_update_less [OF i weight_same this]
      show ?thesis by (simp add: potential_def s')
    next
      case (Some tbl)
      let ?t' = "?t\<lparr>pc := Loop\<rparr>"
      have s': "s' = s\<lparr>threads := (threads s)[i := ?t']\<rparr>"
        using st i tdc Start Some by (simp add: thread_step_def Let_def)
      have "weight ?T (curr ?b) ?t' + 0 * (?T - 1) < weight ?T (curr ?b) ?t"
        using tdc Start by (simp add: weight_def)
      from sum_list_update_less [OF i weight_same this]
      show ?thesis by (simp add: potential_def s')
    qed
  next
    case Loop
    have nz: "size_bt ?b \<noteq> 0"
      using st i tdc Loop by (auto simp: thread_step_def Let_def split: if_splits)
    let ?nxt = "(curr ?b + 1) mod size_bt ?b"
    show ?thesis
    proof (cases "?nxt = 0 \<and> wrap ?b = 0")
      case True
      let ?t' = "?t\<lparr>pc := Start, todo := rs, rets := rets ?t @ [ENOSPC]\<rparr>"
      have s': "s' = s\<lparr>shared := ?b\<lparr>drops_full := drops_full ?b + 1\<rparr>,
                       threads := (threads s)[i := ?t']\<rparr>"
        using st i tdc Loop nz True by (simp add: thread_step_def Let_def)
      have "weight ?T (curr ?b) ?t' + 0 * (?T - 1) < weight ?T (curr ?b) ?t"
        using tdc Loop by (simp add: weight_def split: list.splits)
      from sum_list_update_less [OF i weight_same this]
      show ?thesis by (simp add: potential_def s')
    next
      case False
      let ?t' = "?t\<lparr>pc := Cas (curr ?b) ?nxt\<rparr>"
      have s': "s' = s\<lparr>threads := (threads s)[i := ?t']\<rparr>"
        using st i tdc Loop nz False by (simp add: thread_step_def Let_def)
      have "weight ?T (curr ?b) ?t' + 0 * (?T - 1) < weight ?T (curr ?b) ?t"
        using tdc Loop by (simp add: weight_def)
      from sum_list_update_less [OF i weight_same this]
      show ?thesis by (simp add: potential_def s')
    qed
  next
    case (Cas ix nxt)
    show ?thesis
    proof (cases "curr ?b = ix")
      case True
      let ?t' = "?t\<lparr>pc := Fill ix\<rparr>"
      have s': "s' = s\<lparr>shared := ?b\<lparr>curr := nxt\<rparr>, threads := (threads s)[i := ?t'],
                       claims := claims s @ [(i, ix)]\<rparr>"
        using st i tdc Cas True by (simp add: thread_step_def Let_def)
      have o: "\<forall>x. weight ?T nxt x \<le> weight ?T (curr ?b) x + 2"
        using weight_cursor by blast
      have "weight ?T nxt ?t' + 2 * (?T - 1) < weight ?T (curr ?b) ?t"
        using tdc Cas True T by (simp add: weight_def)
      from sum_list_update_less [OF i o this]
      show ?thesis by (simp add: potential_def s')
    next
      case False
      let ?t' = "?t\<lparr>pc := Loop\<rparr>"
      have s': "s' = s\<lparr>threads := (threads s)[i := ?t']\<rparr>"
        using st i tdc Cas False by (simp add: thread_step_def Let_def)
      have "weight ?T (curr ?b) ?t' + 0 * (?T - 1) < weight ?T (curr ?b) ?t"
        using tdc Cas False by (simp add: weight_def)
      from sum_list_update_less [OF i weight_same this]
      show ?thesis by (simp add: potential_def s')
    qed
  next
    case (Fill ix)
    obtain tbl where tb: "table ?b = Some tbl" and ixl: "unat ix < length tbl"
      using st i tdc Fill
      by (auto simp: thread_step_def Let_def split: option.splits if_splits)
    let ?t' = "?t\<lparr>pc := Start, todo := rs, rets := rets ?t @ [0]\<rparr>"
    have s': "s' = s\<lparr>shared := ?b\<lparr>table := Some (tbl[unat ix := event_of r])\<rparr>,
                     threads := (threads s)[i := ?t']\<rparr>"
      using st i tdc Fill tb ixl by (simp add: thread_step_def Let_def)
    have "weight ?T (curr ?b) ?t' + 0 * (?T - 1) < weight ?T (curr ?b) ?t"
      using tdc Fill by (simp add: weight_def split: list.splits)
    from sum_list_update_less [OF i weight_same this]
    show ?thesis by (simp add: potential_def s')
  qed
qed

lemma thread_step_idle:
  assumes "\<not> i < length (threads s) \<or> todo (threads s ! i) = []"
  shows "thread_step i s = Inr s"
  using assms by (auto simp: thread_step_def Let_def)

lemma potential_step_le:
  assumes "thread_step i s = Inr s'"
  shows "potential s' \<le> potential s"
proof (cases "i < length (threads s) \<and> todo (threads s ! i) \<noteq> []")
  case True
  then show ?thesis using potential_step [OF assms] by simp
next
  case False
  then have "thread_step i s = Inr s" by (intro thread_step_idle) auto
  then show ?thesis using assms by simp
qed

lemma thread_step_todo:
  assumes st: "thread_step i s = Inr s'"
  shows "length (threads s') = length (threads s)
         \<and> (todo (threads s' ! j) \<noteq> [] \<longrightarrow> todo (threads s ! j) \<noteq> [])"
proof (cases "i < length (threads s) \<and> todo (threads s ! i) \<noteq> []")
  case False
  then have "thread_step i s = Inr s" by (intro thread_step_idle) auto
  then show ?thesis using st by simp
next
  case True
  then have i: "i < length (threads s)" and td: "todo (threads s ! i) \<noteq> []" by simp_all
  have "\<exists>t' sh cl. s' = s\<lparr>shared := sh, threads := (threads s)[i := t'], claims := cl\<rparr>"
  proof -
    obtain t' where "threads s' = (threads s)[i := t']"
      using st i td
      by (auto simp: thread_step_def Let_def
          split: list.splits pc.splits option.splits if_splits)
    then have "s' = s\<lparr>shared := shared s', threads := (threads s)[i := t'],
        claims := claims s'\<rparr>"
      using st i td
      by (auto simp: thread_step_def Let_def
          split: list.splits pc.splits option.splits if_splits)
    then show ?thesis by blast
  qed
  then obtain t' sh cl where
    s': "s' = s\<lparr>shared := sh, threads := (threads s)[i := t'], claims := cl\<rparr>" by blast
  show ?thesis
  proof (cases "j = i")
    case True
    then show ?thesis using s' td by simp
  next
    case False
    then show ?thesis using s' by simp
  qed
qed

lemma run_todo:
  assumes "run sched s = Inr s'"
  shows "length (threads s') = length (threads s)
         \<and> (todo (threads s' ! j) \<noteq> [] \<longrightarrow> todo (threads s ! j) \<noteq> [])"
  using assms
proof (induction sched arbitrary: s)
  case Nil
  then show ?case by simp
next
  case (Cons i sched)
  then obtain s1 where st: "thread_step i s = Inr s1" and r: "run sched s1 = Inr s'"
    by (auto split: sum.splits)
  show ?case using Cons.IH [OF r] thread_step_todo [OF st, of j] by simp
qed

lemma potential_run:
  assumes "run sched s = Inr s'" "i < length (threads s)" "todo (threads s' ! i) \<noteq> []"
  shows "potential s' + count_list sched i \<le> potential s"
  using assms
proof (induction sched arbitrary: s)
  case Nil
  then show ?case by simp
next
  case (Cons j sched)
  then obtain s1 where st: "thread_step j s = Inr s1" and r: "run sched s1 = Inr s'"
    by (auto split: sum.splits)
  have len: "length (threads s1) = length (threads s)" using thread_step_todo [OF st] by simp
  have i1: "i < length (threads s1)" using Cons.prems(2) len by simp
  have ih: "potential s' + count_list sched i \<le> potential s1"
    using Cons.IH [OF r i1 Cons.prems(3)] .
  show ?case
  proof (cases "j = i")
    case True
    have "todo (threads s1 ! i) \<noteq> []" using run_todo [OF r, of i] Cons.prems(3) by simp
    then have "todo (threads s ! i) \<noteq> []" using thread_step_todo [OF st, of i] by simp
    then have "potential s1 < potential s"
      using potential_step [OF st] True Cons.prems(2) by simp
    then show ?thesis using ih True by simp
  next
    case False
    then show ?thesis using ih potential_step_le [OF st] by simp
  qed
qed

lemma weight_pos:
  assumes "todo t \<noteq> []" "0 < T"
  shows "0 < weight T c t"
  using assms by (cases "todo t") (auto simp: weight_def split: pc.splits)

lemma enough_steps_done:
  assumes r: "run sched s = Inr s'" and i: "i < length (threads s)"
    and n: "potential s \<le> count_list sched i"
  shows "todo (threads s' ! i) = []"
proof (rule ccontr)
  assume td: "todo (threads s' ! i) \<noteq> []"
  have len: "length (threads s') = length (threads s)" using run_todo [OF r] by simp
  let ?w = "weight (length (threads s')) (curr (shared s'))"
  have "?w (threads s' ! i) \<in> set (map ?w (threads s'))" using i len by simp
  then have "?w (threads s' ! i) \<le> potential s'"
    unfolding potential_def by (simp add: member_le_sum_list)
  moreover have "0 < length (threads s')" using i len by (cases "threads s'") auto
  ultimately have "0 < potential s'"
    using weight_pos [OF td, of "length (threads s')" "curr (shared s')"] by linarith
  then show False using potential_run [OF r i td] n by simp
qed

lemma potential_init:
  assumes "\<forall>rs \<in> set reqss. length rs = K"
  shows "potential (conc_init btp reqss) = length reqss * K * (2 * length reqss + 2)"
proof -
  have w: "weight T c \<lparr> pc = Start, todo = rs, rets = [] \<rparr> = (2 * T + 2) * length rs" for T c rs
    by (cases rs) (simp_all add: weight_def)
  have "sum_list (map (\<lambda>rs. (2 * T + 2) * length rs) reqss) = length reqss * ((2 * T + 2) * K)" for T
    using sum_list_same [of reqss "\<lambda>rs. (2 * T + 2) * length rs" "(2 * T + 2) * K"] assms by simp
  then have "sum_list (map (\<lambda>rs. (2 * length reqss + 2) * length rs) reqss) =
      length reqss * K * (2 * length reqss + 2)"
    by (simp only: mult.assoc mult.commute [of K])
  then show ?thesis
    by (simp only: potential_def conc_init_def conc.simps length_map map_map o_def w bt.simps)
qed


lemma finished_claims:
  assumes inv: "conc_inv b0 ks s" and d: "all_done s"
  shows "length (claims s) = sum_list ks"
proof -
  have len: "length (threads s) = length ks"
    and sum: "length (claims s) = sum_list (map progress (threads s))"
    and all: "\<forall>j < length ks. thread_inv b0 s (ks ! j) j"
    using inv by (simp_all add: conc_inv_def)
  have "map progress (threads s) = map (\<lambda>t. length (rets t)) (threads s)"
  proof (rule nth_equalityI)
    show "length (map progress (threads s)) = length (map (\<lambda>t. length (rets t)) (threads s))"
      by simp
  next
    fix i assume "i < length (map progress (threads s))"
    then have i: "i < length ks" using len by simp
    then have "todo (threads s ! i) = []"
      using d len by (simp add: all_done_def list_all_length)
    moreover have "thread_inv b0 s (ks ! i) i" using all i by simp
    ultimately have "pc (threads s ! i) = Start" by (simp add: thread_inv_def Let_def)
    then show "map progress (threads s) ! i = map (\<lambda>t. length (rets t)) (threads s) ! i"
      using i len by (simp add: progress_def)
  qed
  then have "sum_list (map progress (threads s)) =
      sum_list (map (\<lambda>t. length (rets t)) (threads s))"
    by (simp only:)
  then show ?thesis using sum finished_total [OF inv d] by (simp only:)
qed

lemma all_zero_replicate:
  assumes "set xs \<subseteq> {a}"
  shows "xs = replicate (length xs) a"
  using assms by (induction xs) auto

text \<open>
  Claim C9, as the code has it, for callers that interleave at the steps of
  \<open>thread_step\<close>. \<open>T\<close> callers, each making \<open>K\<close> calls of \<open>dotrace\<close> on one
  well-formed wrapping table of capacity \<open>C\<close>: under every schedule nothing faults, every
  call that has returned has returned 0, and the number of successful compare-and-sets
  (allocations) is the number of calls that have returned plus the number of callers
  that are storing into their slot, at most \<open>T * K\<close>. A compare-and-set that fails is
  retried, and every schedule that gives each caller at least \<open>T * K * (2 * T + 2)\<close>
  steps ends with all calls returned: each caller has \<open>K\<close> returns of 0 and exactly
  \<open>T * K\<close> allocations have succeeded. The successful compare-and-sets hand out
  successive indices modulo \<open>C\<close>, starting at the cursor, so two of them fewer than
  \<open>C\<close> apart give different slots. When \<open>T * K \<le> C\<close> no two callers ever store into
  the same slot at the same time.
\<close>

theorem concurrent_claims:
  assumes wf: "wf_bt btp" and wr: "wrap btp \<noteq> 0"
    and K: "\<forall>rs \<in> set reqss. length rs = K"
  shows "(\<exists>s. run sched (conc_init btp reqss) = Inr s
           \<and> (\<forall>t \<in> set (threads s). set (rets t) \<subseteq> {0} \<and> length (rets t) + length (todo t) = K)
           \<and> length (claims s) = sum_list (map progress (threads s))
           \<and> length (claims s) \<le> length reqss * K
           \<and> (all_done s \<longrightarrow>
                sum_list (map (\<lambda>t. length (rets t)) (threads s)) = length reqss * K
                \<and> length (claims s) = length reqss * K)
           \<and> ((\<forall>i < length reqss. length reqss * K * (2 * length reqss + 2) \<le> count_list sched i) \<longrightarrow>
                all_done s \<and> length (claims s) = length reqss * K
                \<and> (\<forall>t \<in> set (threads s). rets t = replicate K 0))
           \<and> map (unat \<circ> snd) (claims s) =
               map (\<lambda>n. (unat (curr btp) + n) mod unat (size_bt btp)) [0..<length (claims s)]
           \<and> (\<forall>p q. p < q \<and> q < length (claims s) \<and> q - p < unat (size_bt btp) \<longrightarrow>
                  snd (claims s ! p) \<noteq> snd (claims s ! q))
           \<and> (length reqss * K \<le> unat (size_bt btp) \<longrightarrow>
                (\<forall>i j x. i \<noteq> j \<and> owns s i = Some x \<longrightarrow> owns s j \<noteq> Some x)))
       \<and> (\<exists>sched' s'. run sched' (conc_init btp reqss) = Inr s' \<and> all_done s')"
proof -
  let ?ks = "map length reqss" and ?s0 = "conc_init btp reqss"
  let ?B = "length reqss * K * (2 * length reqss + 2)"
  have tot: "sum_list ?ks = length reqss * K" using sum_list_same [of reqss length K] K by simp
  from conc_inv_run [OF conc_inv_init [OF wf, of reqss] wr, of sched]
  obtain s where r: "run sched ?s0 = Inr s" and inv: "conc_inv btp ?ks s"
    by blast
  have len: "length (threads s) = length ?ks"
    and idx: "map (unat \<circ> snd) (claims s) =
        map (\<lambda>n. (unat (curr btp) + n) mod unat (size_bt btp)) [0..<length (claims s)]"
    and pr: "length (claims s) = sum_list (map progress (threads s))"
    and all: "\<forall>j < length ?ks. thread_inv btp s (?ks ! j) j"
    using inv by (simp_all add: conc_inv_def)
  have a: "\<forall>t \<in> set (threads s). set (rets t) \<subseteq> {0} \<and> length (rets t) + length (todo t) = K"
  proof
    fix t assume "t \<in> set (threads s)"
    then obtain j where j: "j < length (threads s)" "t = threads s ! j"
      by (auto simp: in_set_conv_nth)
    then have "thread_inv btp s (?ks ! j) j" using all len by simp
    moreover have "?ks ! j = K" using j len K by simp
    ultimately show "set (rets t) \<subseteq> {0} \<and> length (rets t) + length (todo t) = K"
      using j by (simp add: thread_inv_def Let_def)
  qed
  have bnd: "length (claims s) \<le> length reqss * K" using claims_bound [OF inv] tot by simp
  have fin: "sum_list (map (\<lambda>t. length (rets t)) (threads s)) = length reqss * K
        \<and> length (claims s) = length reqss * K" if "all_done s"
    using finished_total [OF inv that] finished_claims [OF inv that] tot by simp
  then have b: "all_done s \<longrightarrow>
        sum_list (map (\<lambda>t. length (rets t)) (threads s)) = length reqss * K
        \<and> length (claims s) = length reqss * K"
    by blast
  have live: "(\<forall>i < length reqss. ?B \<le> count_list sched i) \<longrightarrow>
        all_done s \<and> length (claims s) = length reqss * K
        \<and> (\<forall>t \<in> set (threads s). rets t = replicate K 0)"
  proof
    assume en: "\<forall>i < length reqss. ?B \<le> count_list sched i"
    have p0: "potential ?s0 = ?B" using potential_init [OF K] .
    have l0: "length (threads ?s0) = length reqss" by (simp add: conc_init_def)
    have "todo (threads s ! i) = []" if "i < length reqss" for i
      using enough_steps_done [OF r, of i] that en p0 l0 by simp
    then have d: "all_done s" using len by (simp add: all_done_def list_all_length)
    have "rets t = replicate K 0" if tin: "t \<in> set (threads s)" for t
    proof -
      have "todo t = []" using d tin by (simp add: all_done_def list_all_iff)
      then have "set (rets t) \<subseteq> {0}" "length (rets t) = K" using a tin by auto
      then show ?thesis using all_zero_replicate [of "rets t" 0] by simp
    qed
    then show "all_done s \<and> length (claims s) = length reqss * K
        \<and> (\<forall>t \<in> set (threads s). rets t = replicate K 0)"
      using d fin by blast
  qed
  have c: "\<forall>p q. p < q \<and> q < length (claims s) \<and> q - p < unat (size_bt btp) \<longrightarrow>
        snd (claims s ! p) \<noteq> snd (claims s ! q)"
    using claims_window [OF inv] by blast
  have d: "length reqss * K \<le> unat (size_bt btp) \<longrightarrow>
        (\<forall>i j x. i \<noteq> j \<and> owns s i = Some x \<longrightarrow> owns s j \<noteq> Some x)"
    using owners_distinct [OF inv] tot by auto
  have first: "\<exists>s. run sched (conc_init btp reqss) = Inr s
           \<and> (\<forall>t \<in> set (threads s). set (rets t) \<subseteq> {0} \<and> length (rets t) + length (todo t) = K)
           \<and> length (claims s) = sum_list (map progress (threads s))
           \<and> length (claims s) \<le> length reqss * K
           \<and> (all_done s \<longrightarrow>
                sum_list (map (\<lambda>t. length (rets t)) (threads s)) = length reqss * K
                \<and> length (claims s) = length reqss * K)
           \<and> ((\<forall>i < length reqss. ?B \<le> count_list sched i) \<longrightarrow>
                all_done s \<and> length (claims s) = length reqss * K
                \<and> (\<forall>t \<in> set (threads s). rets t = replicate K 0))
           \<and> map (unat \<circ> snd) (claims s) =
               map (\<lambda>n. (unat (curr btp) + n) mod unat (size_bt btp)) [0..<length (claims s)]
           \<and> (\<forall>p q. p < q \<and> q < length (claims s) \<and> q - p < unat (size_bt btp) \<longrightarrow>
                  snd (claims s ! p) \<noteq> snd (claims s ! q))
           \<and> (length reqss * K \<le> unat (size_bt btp) \<longrightarrow>
                (\<forall>i j x. i \<noteq> j \<and> owns s i = Some x \<longrightarrow> owns s j \<noteq> Some x))"
    using r a pr bnd b live idx c d by (intro exI [of _ s] conjI)
  show ?thesis using first some_schedule_finishes [OF wf wr K] by (intro conjI)
qed

lemma sample_retry:
  "run [0,0,1,1,0,1] (conc_init (empty_bt 3 1) [[req_at 10], [req_at 20]]) =
     Inr \<lparr> shared = \<lparr> size_bt = 3, curr = 1, wrap = 1, drops_early = 0, drops_full = 0,
                      table = Some [zero_event, zero_event, zero_event] \<rparr>,
           threads = [\<lparr> pc = Fill 0, todo = [req_at 10], rets = [] \<rparr>,
                      \<lparr> pc = Loop, todo = [req_at 20], rets = [] \<rparr>],
           claims = [(0, 0)] \<rparr>"
  by (simp add: thread_step_def conc_init_def empty_bt_def Let_def replicate_3)

lemma sample_run:
  "run [0,0,1,1,0,1,0,0,0,1,1,1,0,0,0,0,0,0,1,1,1,1,1,1]
       (conc_init (empty_bt 3 1) [[req_at 10], [req_at 20]]) =
     Inr \<lparr> shared = \<lparr> size_bt = 3, curr = 2, wrap = 1, drops_early = 0, drops_full = 0,
                      table = Some [event_of (req_at 10), event_of (req_at 20), zero_event] \<rparr>,
           threads = [\<lparr> pc = Start, todo = [], rets = [0] \<rparr>,
                      \<lparr> pc = Start, todo = [], rets = [0] \<rparr>],
           claims = [(0, 0), (1, 1)] \<rparr>"
  by (simp add: thread_step_def conc_init_def empty_bt_def Let_def replicate_3)

theorem concurrent_claims_witness:
  "\<exists>s. run [0,0,1,1,0,1,0,0,0,1,1,1,0,0,0,0,0,0,1,1,1,1,1,1]
           (conc_init (empty_bt 3 1) [[req_at 10], [req_at 20]]) = Inr s
       \<and> all_done s
       \<and> length (claims s) = 2
       \<and> (\<forall>t \<in> set (threads s). rets t = [0])
       \<and> map (unat \<circ> snd) (claims s) = [0, 1]
       \<and> (\<forall>i j x. i \<noteq> j \<and> owns s i = Some x \<longrightarrow> owns s j \<noteq> Some x)
       \<and> pc (threads (projr (run [0,0,1,1,0,1]
             (conc_init (empty_bt 3 1) [[req_at 10], [req_at 20]]))) ! 1) = Loop"
proof -
  let ?b = "empty_bt 3 1" and ?rs = "[[req_at 10], [req_at 20]]"
  let ?sch = "[0,0,1,1,0,1,0,0,0,1,1,1,0,0,0,0,0,0,1,1,1,1,1,1] :: nat list"
  have wf: "wf_bt ?b" by (simp add: wf_bt_def empty_bt_def)
  have wr: "wrap ?b \<noteq> 0" by (simp add: empty_bt_def)
  have K: "\<forall>rs \<in> set ?rs. length rs = 1" by simp
  from concurrent_claims [OF wf wr K, of ?sch]
  obtain s where r: "run ?sch (conc_init ?b ?rs) = Inr s"
    and live: "(\<forall>i < length ?rs. length ?rs * 1 * (2 * length ?rs + 2) \<le> count_list ?sch i) \<longrightarrow>
                all_done s \<and> length (claims s) = length ?rs * 1
                \<and> (\<forall>t \<in> set (threads s). rets t = replicate 1 0)"
    and own: "length ?rs * 1 \<le> unat (size_bt ?b) \<longrightarrow>
                (\<forall>i j x. i \<noteq> j \<and> owns s i = Some x \<longrightarrow> owns s j \<noteq> Some x)"
    by blast
  have "\<forall>i < length ?rs. length ?rs * 1 * (2 * length ?rs + 2) \<le> count_list ?sch i"
    by (auto simp: less_Suc_eq numeral_2_eq_2)
  with live have d: "all_done s" "length (claims s) = 2"
    "\<forall>t \<in> set (threads s). rets t = [0]"
    by simp_all
  have s: "s = \<lparr> shared = \<lparr> size_bt = 3, curr = 2, wrap = 1, drops_early = 0, drops_full = 0,
                      table = Some [event_of (req_at 10), event_of (req_at 20), zero_event] \<rparr>,
           threads = [\<lparr> pc = Start, todo = [], rets = [0] \<rparr>,
                      \<lparr> pc = Start, todo = [], rets = [0] \<rparr>],
           claims = [(0, 0), (1, 1)] \<rparr>"
    using r sample_run by simp
  have c: "map (unat \<circ> snd) (claims s) = [0, 1]" by (simp add: s)
  have "length ?rs * 1 \<le> unat (size_bt ?b)" by (simp add: empty_bt_def)
  with own have o: "\<forall>i j x. i \<noteq> j \<and> owns s i = Some x \<longrightarrow> owns s j \<noteq> Some x" by blast
  have p: "pc (threads (projr (run [0,0,1,1,0,1] (conc_init ?b ?rs))) ! 1) = Loop"
    unfolding sample_retry by simp
  from r d c o p show ?thesis by (intro exI [of _ s] conjI)
qed

text \<open>
  Claim C9 as it is written fails once the cursor laps a caller that is still storing:
  on a wrapping table of two slots, caller 0 claims slot 0 and is delayed before its
  stores; caller 1 makes one whole call, which takes slot 1, and starts a second, whose
  compare-and-set succeeds with slot 0. Both callers are then storing into slot 0.
\<close>

theorem concurrent_claims_counterexample:
  "\<not> isl (run [0,0,0, 1,1,1,1, 1,1,1]
             (conc_init (empty_bt 2 1) [[req_at 10, req_at 11], [req_at 20, req_at 21]]))
   \<and> owns (projr (run [0,0,0, 1,1,1,1, 1,1,1]
             (conc_init (empty_bt 2 1) [[req_at 10, req_at 11], [req_at 20, req_at 21]]))) 0 = Some 0
   \<and> owns (projr (run [0,0,0, 1,1,1,1, 1,1,1]
             (conc_init (empty_bt 2 1) [[req_at 10, req_at 11], [req_at 20, req_at 21]]))) 1 = Some 0"
  by (simp add: thread_step_def conc_init_def empty_bt_def Let_def replicate_2 owns_def)

lemma claim_steps:
  assumes inv: "conc_inv b0 ks s" and wr: "wrap b0 \<noteq> 0" and i: "i < length ks"
    and st: "pc (threads s ! i) = Start" and td: "todo (threads s ! i) \<noteq> []"
  shows "\<exists>s'. run [i, i, i] s = Inr s' \<and> conc_inv b0 ks s'
           \<and> pc (threads s' ! i) = Fill (curr (shared s))
           \<and> todo (threads s' ! i) = todo (threads s ! i)
           \<and> rets (threads s' ! i) = rets (threads s ! i)
           \<and> (\<forall>j. j \<noteq> i \<longrightarrow> threads s' ! j = threads s ! j)"
proof -
  let ?t = "threads s ! i" and ?b = "shared s"
  obtain tbl where nz: "size_bt b0 \<noteq> 0"
    and sz: "size_bt ?b = size_bt b0" "wrap ?b = wrap b0"
    and tb: "table ?b = Some tbl"
    and len: "length (threads s) = length ks"
    using inv by (auto simp: conc_inv_def split: option.splits)
  have il: "i < length (threads s)" using i len by simp
  obtain rq rs where c: "todo ?t = rq # rs" using td by (cases "todo ?t") auto
  from conc_inv_run [OF inv wr, of "[i, i, i]"]
  obtain s' where r: "run [i, i, i] s = Inr s'" and inv': "conc_inv b0 ks s'" by blast
  have "run [i, i, i] s =
      Inr (s\<lparr>shared := ?b\<lparr>curr := (curr ?b + 1) mod size_bt ?b\<rparr>,
             threads := (threads s)[i := ?t\<lparr>pc := Fill (curr ?b)\<rparr>],
             claims := claims s @ [(i, curr ?b)]\<rparr>)"
    using il c st tb nz sz wr by (simp add: thread_step_def Let_def)
  with r have "s' = s\<lparr>shared := ?b\<lparr>curr := (curr ?b + 1) mod size_bt ?b\<rparr>,
             threads := (threads s)[i := ?t\<lparr>pc := Fill (curr ?b)\<rparr>],
             claims := claims s @ [(i, curr ?b)]\<rparr>" by simp
  then have "pc (threads s' ! i) = Fill (curr ?b)" "todo (threads s' ! i) = todo ?t"
    "rets (threads s' ! i) = rets ?t"
    "\<forall>j. j \<noteq> i \<longrightarrow> threads s' ! j = threads s ! j"
    using il by simp_all
  with r inv' show ?thesis by blast
qed

lemma lapped_owner:
  assumes wf: "wf_bt btp" and wr: "wrap btp \<noteq> 0"
    and l0: "length rs0 = unat (size_bt btp)" and l1: "length rs1 = unat (size_bt btp)"
  shows "\<exists>s. run ([0, 0, 0] @ concat (replicate (unat (size_bt btp) - 1) [1, 1, 1, 1]) @ [1, 1, 1])
                (conc_init btp [rs0, rs1]) = Inr s
           \<and> owns s 0 = Some (curr btp) \<and> owns s 1 = Some (curr btp)"
proof -
  let ?C = "unat (size_bt btp)" and ?ks = "[length rs0, length rs1]"
  let ?s0 = "conc_init btp [rs0, rs1]"
  have Cpos: "0 < ?C" and c0: "unat (curr btp) < ?C"
    using wf by (auto simp: wf_bt_def word_less_nat_alt split: option.splits)
  have i0: "0 < length ?ks" and i1: "1 < length ?ks" by simp_all
  have inv0: "conc_inv btp ?ks ?s0" using conc_inv_init [OF wf, of "[rs0, rs1]"] by simp
  have th0: "threads ?s0 ! 0 = \<lparr>pc = Start, todo = rs0, rets = []\<rparr>"
    "threads ?s0 ! 1 = \<lparr>pc = Start, todo = rs1, rets = []\<rparr>"
    "shared ?s0 = btp"
    by (simp_all add: conc_init_def)
  have st0: "pc (threads ?s0 ! 0) = Start" and td0: "todo (threads ?s0 ! 0) \<noteq> []"
    using l0 Cpos th0 by auto
  from claim_steps [OF inv0 wr i0 st0 td0]
  obtain sA where rA: "run [0, 0, 0] ?s0 = Inr sA" and invA: "conc_inv btp ?ks sA"
    and pA0: "pc (threads sA ! 0) = Fill (curr (shared ?s0))"
    and rtA0: "rets (threads sA ! 0) = rets (threads ?s0 ! 0)"
    and oA0: "\<forall>j. j \<noteq> 0 \<longrightarrow> threads sA ! j = threads ?s0 ! j"
    by blast
  have pA: "pc (threads sA ! 0) = Fill (curr btp)" "rets (threads sA ! 0) = []"
    using pA0 rtA0 th0 by simp_all
  have oA: "threads sA ! 1 = \<lparr>pc = Start, todo = rs1, rets = []\<rparr>"
    using oA0 th0 by simp
  have pcA1: "pc (threads sA ! 1) = Start" using oA by simp
  from solo_thread [OF wr i1 invA pcA1, of "?C - 1"]
  obtain sB where rB: "run (concat (replicate (?C - 1) [1, 1, 1, 1])) sA = Inr sB"
    and invB: "conc_inv btp ?ks sB"
    and pB: "pc (threads sB ! 1) = Start"
    and tB: "todo (threads sB ! 1) = drop (?C - 1) (todo (threads sA ! 1))"
    and oB0: "\<forall>j. j \<noteq> 1 \<longrightarrow> threads sB ! j = threads sA ! j"
    by blast
  have oB: "threads sB ! 0 = threads sA ! 0" using oB0 by simp
  have tdB: "length (todo (threads sB ! 1)) = 1"
    using tB oA l1 Cpos by simp
  have lenB: "length (threads sB) = 2" using invB by (simp add: conc_inv_def)
  have sumB: "length (claims sB) = sum_list (map progress (threads sB))"
    using invB by (simp add: conc_inv_def)
  have curB: "unat (curr (shared sB)) = (unat (curr btp) + length (claims sB)) mod ?C"
    using invB by (simp add: conc_inv_def)
  have allB: "\<forall>j < length ?ks. thread_inv btp sB (?ks ! j) j"
    using invB by (simp only: conc_inv_def) blast
  have t1B: "thread_inv btp sB (length rs1) 1"
    using allB [rule_format, OF i1] by simp
  have "length (rets (threads sB ! 1)) + 1 = ?C"
    using t1B tdB l1 by (simp add: thread_inv_def Let_def)
  then have p1: "progress (threads sB ! 1) = ?C - 1" using pB by (simp add: progress_def)
  have p0: "progress (threads sB ! 0) = 1" using oB pA by (simp add: progress_def)
  obtain ta tb where tab: "threads sB = [ta, tb]"
    using lenB by (cases "threads sB"; cases "tl (threads sB)") auto
  have "sum_list (map progress (threads sB)) =
      progress (threads sB ! 0) + progress (threads sB ! 1)"
    by (simp add: tab)
  then have "length (claims sB) = ?C" using sumB p0 p1 Cpos by simp
  then have "unat (curr (shared sB)) = unat (curr btp)" using curB c0 by simp
  then have cB: "curr (shared sB) = curr btp" by (simp add: word_unat_eq_iff)
  have tdB': "todo (threads sB ! 1) \<noteq> []" using tdB by auto
  from claim_steps [OF invB wr i1 pB tdB']
  obtain sC where rC: "run [1, 1, 1] sB = Inr sC"
    and invC: "conc_inv btp ?ks sC"
    and pC: "pc (threads sC ! 1) = Fill (curr (shared sB))"
    and oC0: "\<forall>j. j \<noteq> 1 \<longrightarrow> threads sC ! j = threads sB ! j"
    by blast
  have oC: "threads sC ! 0 = threads sB ! 0" using oC0 by simp
  have lenC: "length (threads sC) = 2" using invC by (simp add: conc_inv_def)
  have "owns sC 0 = Some (curr btp)" using oC oB pA lenC by (simp add: owns_def)
  moreover have "owns sC 1 = Some (curr btp)" using pC cB lenC by (simp add: owns_def)
  moreover have "run ([0, 0, 0] @ concat (replicate (?C - 1) [1, 1, 1, 1]) @ [1, 1, 1]) ?s0 = Inr sC"
    by (simp only: run_append rA rB rC sum.case)
  ultimately show ?thesis by blast
qed

text \<open>
  The same happens on the run table as \<open>boottrace_init\<close> makes it, with 2000 slots:
  caller 0 claims slot 0 and is delayed; caller 1 makes 1999 whole calls and starts one
  more, which claims slot 0 again.
\<close>

lemma run_table_lapped:
  "\<exists>s. run ([0, 0, 0] @ concat (replicate 1999 [1, 1, 1, 1]) @ [1, 1, 1])
          (conc_init (rt globals_booted)
             [replicate 2000 (req_at 10), replicate 2000 (req_at 20)]) = Inr s
       \<and> owns s 0 = Some 0 \<and> owns s 1 = Some 0"
  using lapped_owner [of "rt globals_booted" "replicate 2000 (req_at 10)" "replicate 2000 (req_at 20)"]
  by (simp add: booted_tables wf_bt_def empty_bt_def)

end
